theory Spec2Isabelle
  imports Main "HOL-Library.Word" "HOL-Library.Signed_Division"
begin

unbundle bit_operations_syntax

section \<open>Machine types, result codes and memory\<close>

type_synonym u8 = "8 word"
type_synonym u16 = "16 word"
type_synonym u32 = "32 word"
type_synonym u64 = "64 word"

text \<open>
  \<open>Result\<close> is the firmware's status code. Only three of its values are named in
  \<open>open_agb_firm.c\<close>; every other code (the ones the filesystem layer hands back) is
  \<open>RES_FR n\<close>.
\<close>

datatype Result = RES_OK | RES_ROM_TOO_BIG | RES_NOT_FOUND | RES_FR nat

text \<open>
  The ARM11 address space, byte by byte. Pointers and \<open>uintptr_t\<close> are 32 bits wide, so
  every address computation wraps modulo \<open>2 ^ 32\<close>.
\<close>

type_synonym mem = "u32 \<Rightarrow> u8"

text \<open>
  \<open>memset(p, c, n)\<close> stores \<open>(unsigned char)c\<close> into the \<open>n\<close> bytes from \<open>p\<close>;
  \<open>memcpy(dst, src, n)\<close> copies \<open>n\<close> bytes (the two areas do not overlap where the
  firmware calls it). The address \<open>a\<close> lies in the area from \<open>p\<close> exactly when
  \<open>a - p < n\<close> in 32-bit arithmetic.
\<close>

definition memset :: "mem \<Rightarrow> u32 \<Rightarrow> u32 \<Rightarrow> u32 \<Rightarrow> mem" where
  "memset m p c n = (\<lambda>a. if a - p < n then ucast c else m a)"

definition memcpy :: "mem \<Rightarrow> u32 \<Rightarrow> u32 \<Rightarrow> u32 \<Rightarrow> mem" where
  "memcpy m dst src n = (\<lambda>a. if a - dst < n then m (src + (a - dst)) else m a)"

text \<open>A 32-bit load and store; the ARM11 runs little-endian.\<close>

definition read32 :: "mem \<Rightarrow> u32 \<Rightarrow> u32" where
  "read32 m a = ucast (m a) OR push_bit 8 (ucast (m (a + 1)))
                OR push_bit 16 (ucast (m (a + 2))) OR push_bit 24 (ucast (m (a + 3)))"

definition write32 :: "mem \<Rightarrow> u32 \<Rightarrow> u32 \<Rightarrow> mem" where
  "write32 m a v = (\<lambda>x. if x - a < 4 then ucast (drop_bit (8 * unat (x - a)) v) else m x)"

text \<open>The two halfwords of a word.\<close>

definition lo16 :: "u32 \<Rightarrow> u16" where
  "lo16 w = ucast w"

definition hi16 :: "u32 \<Rightarrow> u16" where
  "hi16 w = ucast (drop_bit 16 w)"

text \<open>
  The two ARMv6 instructions behind the intrinsics of \<open>arm_intrinsic.h\<close>.
  \<open>PKHBT Rd, Rn, Rm, LSL #sh\<close> packs the bottom halfword of \<open>Rn\<close> with the top halfword
  of the shifted \<open>Rm\<close> (the source comments it as "copy lower half + 1 to upper half");
  \<open>UADD16\<close> adds the two halfwords of its operands separately, each modulo \<open>2 ^ 16\<close>
  ("unsigned parallel halfword-wise addition").
\<close>

definition pkhbt :: "u32 \<Rightarrow> u32 \<Rightarrow> nat \<Rightarrow> u32" where
  "pkhbt rn rm sh = take_bit 16 rn OR push_bit 16 (drop_bit 16 (push_bit sh rm))"

definition uadd16 :: "u32 \<Rightarrow> u32 \<Rightarrow> u32" where
  "uadd16 a b = ucast ((ucast a :: u16) + ucast b)
     OR push_bit 16 (ucast ((ucast (drop_bit 16 a) :: u16) + ucast (drop_bit 16 b)))"

section \<open>ROM padding: \<open>fixRomPadding\<close>\<close>

text \<open>
  The base address \<open>ROM_LOC\<close> of the ROM window is defined in \<open>hardware/lgy.h\<close>, which is
  not among the sources, and the specification does not give it: it is a parameter of
  every function that uses it.
\<close>

text \<open>
  Modelled from the spec: \<open>MAX_ROM_SIZE\<close> is defined in \<open>hardware/lgy.h\<close>, which is not
  among the sources; the specification fixes the destination window at 32 MiB.
\<close>

definition MAX_ROM_SIZE :: u32 where
  "MAX_ROM_SIZE = 0x2000000"

text \<open>
  Modelled from the spec: the search behind \<open>nextPow2\<close> (declared in \<open>util.h\<close>, which is not
  among the sources): from \<open>p\<close>, double until the argument is reached, at most \<open>fuel\<close> times.
\<close>

fun pow2_ge :: "nat \<Rightarrow> nat \<Rightarrow> nat \<Rightarrow> nat" where
  "pow2_ge 0 p n = p"
| "pow2_ge (Suc fuel) p n = (if n \<le> p then p else pow2_ge fuel (2 * p) n)"

text \<open>
  Modelled from the spec: \<open>nextPow2\<close> is declared in \<open>util.h\<close>, which is not among the
  sources; the specification calls its result the next power of two of the file size.
  It is the least power of two that is not below the argument; a result of \<open>2 ^ 32\<close> does
  not fit 32 bits and wraps to 0.
\<close>

definition nextPow2 :: "u32 \<Rightarrow> u32" where
  "nextPow2 val = of_nat (pow2_ge 32 1 (unat val))"

text \<open>
  The open-bus loop
  \<^verbatim>\<open>for(uintptr_t i = ROM_LOC + romSize; i < ROM_LOC + MAX_ROM_SIZE; i += 4)\<close>
  and the mirroring loop
  \<^verbatim>\<open>for(uintptr_t i = ROM_LOC + romSize; i < ROM_LOC + MAX_ROM_SIZE; i += romSize)\<close>.
  The counter is a 32-bit value: were the window to touch the top of the address space,
  the counter would wrap and the loop would not end, which is the result \<open>None\<close>.
\<close>

partial_function (option) openBusLoop :: "u32 \<Rightarrow> u32 \<Rightarrow> u32 \<Rightarrow> mem \<Rightarrow> mem option" where
  "openBusLoop lim i padding m =
     (if i < lim
      then openBusLoop lim (i + 4) (uadd16 padding 0x00020002) (write32 m i padding)
      else Some m)"

partial_function (option) mirrorLoop :: "u32 \<Rightarrow> u32 \<Rightarrow> u32 \<Rightarrow> u32 \<Rightarrow> mem \<Rightarrow> mem option" where
  "mirrorLoop lim i base romSize m =
     (if i < lim
      then mirrorLoop lim (i + romSize) base romSize (memcpy m i base romSize)
      else Some m)"

definition fixRomPadding :: "u32 \<Rightarrow> mem \<Rightarrow> u32 \<Rightarrow> (u32 \<times> mem) option" where
  "fixRomPadding ROM_LOC m romFileSize =
     (let romSize0 = nextPow2 romFileSize;
          romSize = (if romSize0 < 0x100000 then 0x100000 else romSize0);
          m1 = memset m (ROM_LOC + romFileSize) 0xFFFFFFFF (romSize - romFileSize)
      in if romSize > 0x100000
         then
           (let padding0 = (ROM_LOC + romSize) div 2;
                padding = pkhbt padding0 (padding0 + 1) 16
            in map_option (Pair romSize)
                 (openBusLoop (ROM_LOC + MAX_ROM_SIZE) (ROM_LOC + romSize) padding m1))
         else
           map_option (Pair romSize)
             (mirrorLoop (ROM_LOC + MAX_ROM_SIZE) (ROM_LOC + romSize) ROM_LOC romSize m1))"

section \<open>Loading the ROM file: \<open>loadGbaRom\<close>\<close>

text \<open>
  The filesystem calls of \<open>fs.h\<close> are outside the sources. An open file is its bytes, the
  read position and, for every position, the status a read issued there ends with
  (\<open>RES_OK\<close> where the medium is sound). A read that succeeds transfers the bytes up to
  the end of the file and reports their number; a read that fails transfers nothing.
  \<open>fSize\<close> is a \<open>u32\<close>, as the file sizes of the FAT filesystem are.
\<close>

record FHandle =
  h_data :: "u8 list"
  h_pos :: nat
  h_fault :: "nat \<Rightarrow> Result"

type_synonym FileSys = "string \<Rightarrow> Result + FHandle"

definition fOpen :: "FileSys \<Rightarrow> string \<Rightarrow> Result + FHandle" where
  "fOpen fs path = (case fs path of Inl e \<Rightarrow> Inl e | Inr f \<Rightarrow> Inr (f\<lparr>h_pos := 0\<rparr>))"

definition fSize :: "FHandle \<Rightarrow> u32" where
  "fSize f = of_nat (length (h_data f))"

definition store_bytes :: "mem \<Rightarrow> u32 \<Rightarrow> u8 list \<Rightarrow> mem" where
  "store_bytes m buf bs = (\<lambda>a. if unat (a - buf) < length bs then bs ! unat (a - buf) else m a)"

definition fRead :: "FHandle \<Rightarrow> u32 \<Rightarrow> u32 \<Rightarrow> mem \<Rightarrow> Result \<times> u32 \<times> mem \<times> FHandle" where
  "fRead f buf len m =
     (if h_fault f (h_pos f) = RES_OK
      then (let chunk = take (unat len) (drop (h_pos f) (h_data f))
            in (RES_OK, of_nat (length chunk), store_bytes m buf chunk,
                f\<lparr>h_pos := h_pos f + length chunk\<rparr>))
      else (h_fault f (h_pos f), 0, m, f))"

text \<open>
  \<^verbatim>\<open>while((res = fRead(f, ptr, 0x100000u, &read)) == RES_OK && read == 0x100000u)
      ptr += 0x100000u;\<close>
\<close>

function readLoop :: "FHandle \<Rightarrow> u32 \<Rightarrow> mem \<Rightarrow> Result \<times> mem \<times> FHandle" where
  "readLoop f ptr m =
     (case fRead f ptr 0x100000 m of
        (res, rd, m', f') \<Rightarrow>
          if res = RES_OK \<and> rd = 0x100000
          then readLoop f' (ptr + 0x100000) m'
          else (res, m', f'))"
  by pat_completeness auto
termination
proof (relation "measure (\<lambda>(f, ptr, m). length (h_data f) - h_pos f)", goal_cases)
  case 1
  show ?case by simp
next
  case (2 f ptr m res y rd ya m' f')
  let ?chunk = "take (unat (0x100000 :: u32)) (drop (h_pos f) (h_data f))"
  have fr: "fRead f ptr 0x100000 m = (res, rd, m', f')" using 2 by simp
  have ok: "res = RES_OK" "rd = 0x100000" using 2 by simp_all
  have nofault: "h_fault f (h_pos f) = RES_OK"
    using fr ok by (auto simp add: fRead_def Let_def split: if_splits)
  then have rd: "rd = of_nat (length ?chunk)" and f': "f' = f\<lparr>h_pos := h_pos f + length ?chunk\<rparr>"
    using fr by (auto simp add: fRead_def Let_def)
  have le: "length ?chunk \<le> 0x100000" by simp
  have "unat (of_nat (length ?chunk) :: u32) = length ?chunk"
    using le by (simp add: unat_of_nat)
  then have len: "length ?chunk = 0x100000" using rd ok by simp
  then have "h_pos f + 0x100000 \<le> length (h_data f)" by simp
  then show ?case using f' len by simp
qed

declare readLoop.simps [simp del]

text \<open>
  \<open>romSizeOut\<close> is the caller's variable behind the pointer: the loader gets its old
  value and returns the new one next to the status and the memory.
\<close>

definition loadGbaRom :: "u32 \<Rightarrow> FileSys \<Rightarrow> string \<Rightarrow> mem \<Rightarrow> u32 \<Rightarrow> (Result \<times> mem \<times> u32) option" where
  "loadGbaRom ROM_LOC fs path m romSizeOut =
     (case fOpen fs path of
        Inl e \<Rightarrow> Some (e, m, romSizeOut)
      | Inr f \<Rightarrow>
          (let fileSize = fSize f
           in if fileSize \<le> MAX_ROM_SIZE
              then (case readLoop f ROM_LOC m of
                      (res, m1, f1) \<Rightarrow>
                        (case fixRomPadding ROM_LOC m1 fileSize of
                           None \<Rightarrow> None
                         | Some (romSize, m2) \<Rightarrow> Some (res, m2, romSize)))
              else Some (RES_ROM_TOO_BIG, m, romSizeOut)))"

section \<open>The game database: \<open>searchGameDb\<close>\<close>

text \<open>
  \<open>fLseek\<close> on a file opened for reading moves the position, clipped to the size of the file
  (the behaviour of the FAT driver under \<open>fs.h\<close>).
\<close>

definition fLseek :: "FHandle \<Rightarrow> u32 \<Rightarrow> Result \<times> FHandle" where
  "fLseek f ofs = (RES_OK, f\<lparr>h_pos := min (unat ofs) (length (h_data f))\<rparr>)"

text \<open>
  \<^verbatim>\<open>*(u64*)db->sha1\<close> is an unaligned 64-bit load of the first eight bytes of the hash;
  the ARM11 reads them little-endian (the source prints \<open>__builtin_bswap64(x)\<close> to show the
  key in the hash's own byte order).
\<close>

definition load64 :: "u8 list \<Rightarrow> u64" where
  "load64 bs = foldr (\<lambda>b acc. ucast b OR push_bit 8 acc) (take 8 bs) 0"

definition read64 :: "mem \<Rightarrow> u32 \<Rightarrow> u64" where
  "read64 m a = load64 (map (\<lambda>j. m (a + of_nat j)) [0..<8])"

text \<open>The \<open>s32\<close> variables \<open>l\<close>, \<open>r\<close>, \<open>mid\<close> are integers wrapped to 32 bits, two's complement.\<close>

definition s32 :: "int \<Rightarrow> int" where
  "s32 k = signed_take_bit 31 k"

text \<open>
  \<open>GameDbEntry\<close> is \<open>char name[200]; char gameCode[4]; u8 sha1[20]; u32 attr;\<close>: 228 bytes
  without padding, the hash at offset 204 and \<open>attr\<close> at offset 224. The buffer \<open>db\<close> is an
  address; \<open>entryPos\<close> is the caller's variable behind the pointer.
\<close>

definition sizeof_GameDbEntry :: u32 where
  "sizeof_GameDbEntry = 228"

definition offsetof_sha1 :: u32 where
  "offsetof_sha1 = 204"

text \<open>
  The \<open>while(1)\<close> loop of \<open>searchGameDb\<close>; \<open>(r - l) / 2\<close> is C's division, which truncates
  towards zero.
\<close>

partial_function (option) searchLoop ::
  "FHandle \<Rightarrow> u64 \<Rightarrow> u32 \<Rightarrow> mem \<Rightarrow> int \<Rightarrow> int \<Rightarrow> int \<Rightarrow> (Result \<times> mem \<times> int \<times> FHandle) option" where
  "searchLoop f x db m entryPos l r =
     (let mid = s32 (l + s32 (s32 (r - l) sdiv 2))
      in case fLseek f (sizeof_GameDbEntry * of_int mid) of
           (res1, f1) \<Rightarrow>
             if res1 \<noteq> RES_OK then Some (res1, m, entryPos, f1)
             else (case fRead f1 db sizeof_GameDbEntry m of
                     (res2, rd, m2, f2) \<Rightarrow>
                       if res2 \<noteq> RES_OK then Some (res2, m2, entryPos, f2)
                       else (let tmp = read64 m2 (db + offsetof_sha1)
                             in if tmp = x then Some (res2, m2, mid, f2)
                                else if r \<le> l \<or> r < 0 then Some (RES_NOT_FOUND, m2, entryPos, f2)
                                else if tmp > x then searchLoop f2 x db m2 entryPos l (s32 (mid - 1))
                                else searchLoop f2 x db m2 entryPos (s32 (mid + 1)) r)))"

definition searchGameDb :: "FileSys \<Rightarrow> u64 \<Rightarrow> u32 \<Rightarrow> mem \<Rightarrow> int \<Rightarrow> (Result \<times> mem \<times> int) option" where
  "searchGameDb fs x db m entryPos =
     (case fOpen fs ''gba_db.bin'' of
        Inl e \<Rightarrow> Some (e, m, entryPos)
      | Inr f \<Rightarrow>
          map_option (\<lambda>(res, m', pos, f'). (res, m', pos))
            (searchLoop f x db m entryPos 0 (sint (fSize f div sizeof_GameDbEntry - 1))))"

section \<open>Save type detection: \<open>checkSaveOverride\<close> and \<open>tryDetectSaveType\<close>\<close>

text \<open>
  The save types are the \<open>u16\<close> codes of \<open>hardware/lgy.h\<close>, which is not among the
  sources. Their numbers are read off \<open>saveDbDebug\<close>: its legend has EEPROM 4k/8k as 0 and 1,
  EEPROM 64k as 2 and 3, SRAM 256k as 14 and none as 15; its cursor table holds 0 and 2 for
  the two EEPROM types it then compares with \<open>SAVE_TYPE_EEPROM_8k\<close> and
  \<open>SAVE_TYPE_EEPROM_64k\<close>, and \<open>saveType++\<close> turns them into the \<open>_2\<close> variants. The two flash
  types of the detector are taken as 8 and 10, the codes the cursor table has for flash
  512k and 1m with a clock; no claim depends on these two numbers.
\<close>

definition SAVE_TYPE_EEPROM_8k :: u16 where "SAVE_TYPE_EEPROM_8k = 0"
definition SAVE_TYPE_EEPROM_8k_2 :: u16 where "SAVE_TYPE_EEPROM_8k_2 = 1"
definition SAVE_TYPE_EEPROM_64k :: u16 where "SAVE_TYPE_EEPROM_64k = 2"
definition SAVE_TYPE_EEPROM_64k_2 :: u16 where "SAVE_TYPE_EEPROM_64k_2 = 3"
definition SAVE_TYPE_FLASH_512k_PSC_RTC :: u16 where "SAVE_TYPE_FLASH_512k_PSC_RTC = 8"
definition SAVE_TYPE_FLASH_1m_MRX_RTC :: u16 where "SAVE_TYPE_FLASH_1m_MRX_RTC = 10"
definition SAVE_TYPE_SRAM_256k :: u16 where "SAVE_TYPE_SRAM_256k = 14"
definition SAVE_TYPE_NONE :: u16 where "SAVE_TYPE_NONE = 15"

text \<open>
  The bytes of a string literal (without the terminating zero), and the \<open>u32\<close> behind the
  first four bytes of a \<open>char[4]\<close> (\<^verbatim>\<open>*((u32*)overrideLut[i].gameCode)\<close>).
\<close>

definition cstr :: "string \<Rightarrow> u8 list" where
  "cstr s = map of_char s"

definition load32 :: "u8 list \<Rightarrow> u32" where
  "load32 bs = foldr (\<lambda>b acc. ucast b OR push_bit 8 acc) (take 4 bs) 0"

definition overrideLut :: "(u8 list \<times> u16) list" where
  "overrideLut =
     [([0, 0, 0, 0],       SAVE_TYPE_SRAM_256k),
      (cstr ''GMB'' @ [0], SAVE_TYPE_SRAM_256k),
      (cstr ''AA2'' @ [0], SAVE_TYPE_EEPROM_64k),
      (cstr ''A3A'' @ [0], SAVE_TYPE_EEPROM_64k),
      (cstr ''AZL'' @ [0], SAVE_TYPE_EEPROM_64k)]"

fun overrideLoop :: "u32 \<Rightarrow> (u8 list \<times> u16) list \<Rightarrow> u16" where
  "overrideLoop gameCode [] = 0xFF"
| "overrideLoop gameCode ((code, saveType) # lut) =
     (if gameCode AND 0xFFFFFF = load32 code then saveType else overrideLoop gameCode lut)"

definition checkSaveOverride :: "u32 \<Rightarrow> u16" where
  "checkSaveOverride gameCode =
     (if gameCode AND 0xFF = of_char CHR ''F'' then SAVE_TYPE_EEPROM_8k
      else overrideLoop gameCode overrideLut)"

definition saveTypeLut :: "(string \<times> u16) list" where
  "saveTypeLut =
     [(''EEPROM_V111'', SAVE_TYPE_EEPROM_8k),
      (''EEPROM_V120'', SAVE_TYPE_EEPROM_8k),
      (''EEPROM_V121'', SAVE_TYPE_EEPROM_64k),
      (''EEPROM_V122'', SAVE_TYPE_EEPROM_8k),
      (''EEPROM_V124'', SAVE_TYPE_EEPROM_64k),
      (''EEPROM_V125'', SAVE_TYPE_EEPROM_8k),
      (''EEPROM_V126'', SAVE_TYPE_EEPROM_8k),
      (''FLASH_V120'',    SAVE_TYPE_FLASH_512k_PSC_RTC),
      (''FLASH_V121'',    SAVE_TYPE_FLASH_512k_PSC_RTC),
      (''FLASH_V123'',    SAVE_TYPE_FLASH_512k_PSC_RTC),
      (''FLASH_V124'',    SAVE_TYPE_FLASH_512k_PSC_RTC),
      (''FLASH_V125'',    SAVE_TYPE_FLASH_512k_PSC_RTC),
      (''FLASH_V126'',    SAVE_TYPE_FLASH_512k_PSC_RTC),
      (''FLASH512_V130'', SAVE_TYPE_FLASH_512k_PSC_RTC),
      (''FLASH512_V131'', SAVE_TYPE_FLASH_512k_PSC_RTC),
      (''FLASH512_V133'', SAVE_TYPE_FLASH_512k_PSC_RTC),
      (''FLASH1M_V102'',  SAVE_TYPE_FLASH_1m_MRX_RTC),
      (''FLASH1M_V103'',  SAVE_TYPE_FLASH_1m_MRX_RTC),
      (''SRAM_F_V100'', SAVE_TYPE_SRAM_256k),
      (''SRAM_F_V102'', SAVE_TYPE_SRAM_256k),
      (''SRAM_F_V103'', SAVE_TYPE_SRAM_256k),
      (''SRAM_V110'',   SAVE_TYPE_SRAM_256k),
      (''SRAM_V111'',   SAVE_TYPE_SRAM_256k),
      (''SRAM_V112'',   SAVE_TYPE_SRAM_256k),
      (''SRAM_V113'',   SAVE_TYPE_SRAM_256k)]"

text \<open>
  \<^verbatim>\<open>memcmp(romPtr, str, strlen(str)) == 0\<close>: the bytes from \<open>romPtr\<close> are those of the string.
\<close>

definition memcmp_eq :: "mem \<Rightarrow> u32 \<Rightarrow> u8 list \<Rightarrow> bool" where
  "memcmp_eq m p bs \<longleftrightarrow> map (\<lambda>j. m (p + of_nat j)) [0..<length bs] = bs"

text \<open>
  The inner loop over the 25 entries of \<open>saveTypeLut\<close>, entered at a marker word; it yields
  the save type of the first entry that matches (\<open>goto saveTypeFound\<close>), or nothing.
\<close>

fun lutLoop :: "mem \<Rightarrow> u32 \<Rightarrow> u32 \<Rightarrow> (string \<times> u16) list \<Rightarrow> u16 option" where
  "lutLoop m romPtr romSize [] = None"
| "lutLoop m romPtr romSize ((str, tmpSaveType) # lut) =
     (if memcmp_eq m romPtr (cstr str)
      then Some (if (tmpSaveType = SAVE_TYPE_EEPROM_8k \<or> tmpSaveType = SAVE_TYPE_EEPROM_64k)
                    \<and> romSize > 0x1000000
                 then tmpSaveType + 1 else tmpSaveType)
      else lutLoop m romPtr romSize lut)"

text \<open>
  \<^verbatim>\<open>for(; romPtr < (u32*)(ROM_LOC + romSize); romPtr++)\<close>; the markers are the words
  \<open>"EEPR"\<close>, \<open>"FLAS"\<close> and \<open>"SRAM"\<close>.
\<close>

partial_function (option) scanLoop :: "mem \<Rightarrow> u32 \<Rightarrow> u32 \<Rightarrow> u32 \<Rightarrow> u16 option" where
  "scanLoop m lim romSize romPtr =
     (if romPtr < lim
      then (let tmp = read32 m romPtr
            in if tmp = 0x52504545 \<or> tmp = 0x53414C46 \<or> tmp = 0x4D415253
               then (case lutLoop m romPtr romSize saveTypeLut of
                       Some saveType \<Rightarrow> Some saveType
                     | None \<Rightarrow> scanLoop m lim romSize (romPtr + 4))
               else scanLoop m lim romSize (romPtr + 4))
      else Some SAVE_TYPE_NONE)"

definition tryDetectSaveType :: "u32 \<Rightarrow> mem \<Rightarrow> u32 \<Rightarrow> u16 option" where
  "tryDetectSaveType ROM_LOC m romSize =
     (let saveType = checkSaveOverride (read32 m (ROM_LOC + 0xAC))
      in if saveType \<noteq> 0xFF then Some saveType
         else scanLoop m (ROM_LOC + romSize) romSize (ROM_LOC + 0xE4))"

section \<open>The diagnostic flow: \<open>saveDbDebug\<close>\<close>

text \<open>
  What \<open>saveDbDebug\<close> does to the outside: lines on the console, the cursor it draws, the
  save file it deletes, the attribute word it writes into the database.
\<close>

datatype Effect =
    Puts string
  | ShowInfo bool u16 u16
  | ShowCursor nat nat
  | Unlink string
  | ShowDeleted
  | DbWrite u32 u32

text \<open>
  One round of the polling loop: whether \<open>hidGetExtraKeys(0)\<close> shows the power button, and
  the keys \<open>hidKeysDown()\<close> reports (\<open>kDown = 0\<close> is the empty set). Only the four keys the
  function tests are told apart.
\<close>

datatype Key = KEY_DUP | KEY_DDOWN | KEY_X | KEY_A | KEY_OTHER

record HidSample =
  power :: bool
  kDown :: "Key set"

datatype Selection = Starved | PowerOff "Effect list" | Accepted nat "Effect list"

text \<open>
  The selection loop, one sample after the other. A sample without keys keeps polling;
  with the samples used up the function waits for ever (\<open>Starved\<close>).
\<close>

fun cursorLoop :: "string \<Rightarrow> nat \<Rightarrow> nat \<Rightarrow> Effect list \<Rightarrow> HidSample list \<Rightarrow> Selection" where
  "cursorLoop savePath oldCursor cursor effs [] = Starved"
| "cursorLoop savePath oldCursor cursor effs (s # ss) =
     (if power s then PowerOff effs
      else if kDown s = {} then cursorLoop savePath oldCursor cursor effs ss
      else if KEY_DUP \<in> kDown s \<and> cursor > 0
        then cursorLoop savePath (cursor - 1) (cursor - 1) (effs @ [ShowCursor cursor (cursor - 1)]) ss
      else if KEY_DDOWN \<in> kDown s \<and> cursor < 7
        then cursorLoop savePath (cursor + 1) (cursor + 1) (effs @ [ShowCursor cursor (cursor + 1)]) ss
      else if KEY_X \<in> kDown s
        then cursorLoop savePath cursor cursor (effs @ [Unlink savePath, ShowDeleted, ShowCursor cursor cursor]) ss
      else if KEY_A \<in> kDown s then Accepted cursor effs
      else cursorLoop savePath cursor cursor (effs @ [ShowCursor cursor cursor]) ss)"

definition saveTypeCursorLut :: "nat list" where
  "saveTypeCursorLut = [0, 0, 1, 1, 2, 3, 2, 3, 2, 3, 4, 5, 4, 5, 6, 7]"

definition cursorSaveTypeLut :: "u16 list" where
  "cursorSaveTypeLut = [0, 2, 8, 9, 10, 11, 14, 15]"

text \<open>
  Modelled from the spec: the logarithm behind \<open>intLog2\<close> (declared in \<open>util.h\<close>, which is
  not among the sources), rounded down, by halving.
\<close>

fun intLog2_nat :: "nat \<Rightarrow> nat" where
  "intLog2_nat n = (if n < 2 then 0 else Suc (intLog2_nat (n div 2)))"

text \<open>
  Modelled from the spec: \<open>intLog2\<close> is declared in \<open>util.h\<close>, which is not among the
  sources; the specification has the attribute word keep the logarithm to base 2 of the
  ROM size above the save type.
\<close>

definition intLog2 :: "u32 \<Rightarrow> u32" where
  "intLog2 val = of_nat (intLog2_nat (unat val))"

text \<open>The test \<^verbatim>\<open>if(dbPos > -1 || dbPos < 3253)\<close>, on the \<open>s32\<close> position.\<close>

definition dbPosInRange :: "int \<Rightarrow> bool" where
  "dbPosInRange dbPos \<longleftrightarrow> dbPos > - 1 \<or> dbPos < 3253"

text \<open>
  The part of \<open>saveDbDebug\<close> after the selection: the save type under the cursor, its
  promotion, and the correction of the database. \<open>dbOpen\<close> is the status of opening
  \<open>gba_db.bin\<close> for writing.
\<close>

definition commitSaveType :: "nat \<Rightarrow> u32 \<Rightarrow> u32 \<Rightarrow> int \<Rightarrow> Result \<Rightarrow> u16 \<times> Effect list" where
  "commitSaveType cursor romSize attr dbPos dbOpen =
     (let saveType0 = cursorSaveTypeLut ! cursor;
          saveType = (if (saveType0 = SAVE_TYPE_EEPROM_8k \<or> saveType0 = SAVE_TYPE_EEPROM_64k)
                         \<and> romSize > 0x1000000
                      then saveType0 + 1 else saveType0)
      in if attr \<noteq> ucast saveType
         then (if dbPosInRange dbPos
               then (let attr' = push_bit 27 (intLog2 romSize) OR ucast saveType
                     in if dbOpen = RES_OK
                        then (saveType, [DbWrite (sizeof_GameDbEntry * of_int dbPos + 224) attr'])
                        else (SAVE_TYPE_NONE, [Puts ''Could not open db for write!'']))
               else (SAVE_TYPE_NONE, [Puts ''Db position out of range!'']))
         else (saveType, []))"

text \<open>
  \<open>saveDbDebug\<close>. The digest of the ROM comes from the hash engine, outside the sources:
  \<open>x\<close> is its first 64-bit word. Whether the save file exists (\<open>fStat\<close>) only shows on the
  console. \<open>db\<close> is the address of the local \<open>dbEntry\<close>.
\<close>

definition saveDbDebug ::
  "u32 \<Rightarrow> FileSys \<Rightarrow> bool \<Rightarrow> u64 \<Rightarrow> Result \<Rightarrow> HidSample list \<Rightarrow> u32 \<Rightarrow> mem \<Rightarrow> string \<Rightarrow> u32
   \<Rightarrow> (u16 \<times> Effect list) option" where
  "saveDbDebug ROM_LOC fs saveExists x dbOpen samples db m savePath romSize =
     (case tryDetectSaveType ROM_LOC m romSize of
        None \<Rightarrow> None
      | Some autoSaveType \<Rightarrow>
          (case searchGameDb fs x db m (- 1) of
             None \<Rightarrow> None
           | Some (res, m', dbPos) \<Rightarrow>
               if res \<noteq> RES_OK
               then Some (SAVE_TYPE_NONE,
                          [Puts ''Could not access the game db! Press the power button twice.''])
               else (let attr = read32 m' (db + 224);
                         saveType = ucast (attr AND 0xF);
                         cursor = saveTypeCursorLut ! unat saveType;
                         effs = [ShowInfo saveExists saveType autoSaveType, ShowCursor 0 cursor]
                     in case cursorLoop savePath cursor cursor effs samples of
                          Starved \<Rightarrow> None
                        | PowerOff effs1 \<Rightarrow> Some (saveType, effs1)
                        | Accepted cursor1 effs1 \<Rightarrow>
                            (case commitSaveType cursor1 romSize attr dbPos dbOpen of
                               (saveType1, effs2) \<Rightarrow> Some (saveType1, effs1 @ effs2)))))"

section \<open>The frame task: \<open>gbaGfxHandler\<close>\<close>

text \<open>
  The task is the sequence of calls it makes. Its input is what each \<open>waitForEvent\<close> returns
  and, for a wait that succeeds, whether \<open>hidKeysDown()\<close> shows the Y key afterwards. The
  flag \<open>inited\<close> is the function's static variable. With the input used up the task is
  blocked in \<open>waitForEvent\<close>.
\<close>

datatype KRes = KRES_OK | KRES_ERR nat

datatype GpuList = gbaGpuInitList | gbaGpuList2

datatype Transfer = FrameToTopScreen | TextureToDumpBuffer

datatype Call =
    waitForEvent
  | clearEvent
  | GX_processCommandList GpuList
  | GFX_waitForP3D
  | GX_displayTransfer Transfer
  | GFX_waitForPPF
  | GFX_swapFramebufs
  | memcpy_bmpHeader
  | fsQuickWrite string
  | taskExit

definition dumpFrameTex :: "Call list" where
  "dumpFrameTex =
     [GX_displayTransfer TextureToDumpBuffer, GFX_waitForPPF, memcpy_bmpHeader,
      fsQuickWrite ''texture_dump.bmp'']"

fun gbaGfxHandler :: "bool \<Rightarrow> (KRes \<times> bool) list \<Rightarrow> Call list \<times> bool \<times> bool" where
  "gbaGfxHandler inited [] = ([waitForEvent], inited, False)"
| "gbaGfxHandler inited ((res, keyY) # evs) =
     (if res \<noteq> KRES_OK then ([waitForEvent, taskExit], inited, True)
      else (case gbaGfxHandler True evs of
              (calls, inited', exited) \<Rightarrow>
                ([waitForEvent, clearEvent,
                  GX_processCommandList (if inited = False then gbaGpuInitList else gbaGpuList2),
                  GFX_waitForP3D, GX_displayTransfer FrameToTopScreen, GFX_waitForPPF,
                  GFX_swapFramebufs]
                 @ (if keyY then dumpFrameTex else []) @ calls,
                 inited', exited)))"

section \<open>Vocabulary of the proofs and of the claims\<close>

text \<open>
  For the proofs, each of the two loops of \<open>fixRomPadding\<close> is unrolled a given number of
  times; \<open>openBusWord p k\<close> is the value of the variable \<open>padding\<close> after \<open>k\<close> rounds.
\<close>

primrec openBusFill :: "nat \<Rightarrow> u32 \<Rightarrow> u32 \<Rightarrow> mem \<Rightarrow> mem" where
  "openBusFill 0 i padding m = m"
| "openBusFill (Suc n) i padding m =
     openBusFill n (i + 4) (uadd16 padding 0x00020002) (write32 m i padding)"

primrec openBusWord :: "u32 \<Rightarrow> nat \<Rightarrow> u32" where
  "openBusWord p 0 = p"
| "openBusWord p (Suc k) = uadd16 (openBusWord p k) 0x00020002"

primrec mirrorFill :: "nat \<Rightarrow> u32 \<Rightarrow> u32 \<Rightarrow> u32 \<Rightarrow> mem \<Rightarrow> mem" where
  "mirrorFill 0 i base romSize m = m"
| "mirrorFill (Suc n) i base romSize m =
     mirrorFill n (i + romSize) base romSize (memcpy m i base romSize)"

text \<open>
  The open-bus pattern in the specification's words: the first word has the low 16 bits
  of half the start address in its lower half and that value plus 1 in its upper half;
  every later word is the one before it with 2 added to each half, modulo \<open>2 ^ 16\<close>.
\<close>

definition halfwords :: "u16 \<Rightarrow> u16 \<Rightarrow> u32" where
  "halfwords lower upper = ucast lower OR push_bit 16 (ucast upper)"

primrec openBusPattern :: "u32 \<Rightarrow> nat \<Rightarrow> u32" where
  "openBusPattern start 0 = halfwords (ucast (start div 2)) (ucast (start div 2) + 1)"
| "openBusPattern start (Suc k) =
     halfwords (lo16 (openBusPattern start k) + 2) (hi16 (openBusPattern start k) + 2)"

text \<open>
  A database is a list of 228-byte records; \<open>entry_key\<close> is a record's key as the search
  reads it, \<open>be_key\<close> the same eight bytes taken as a big-endian number. \<open>db_file f es\<close>: the
  file \<open>f\<close> is the records \<open>es\<close> one after the other, and its reads succeed.
\<close>

definition entry_key :: "u8 list \<Rightarrow> u64" where
  "entry_key e = load64 (drop (unat offsetof_sha1) e)"

definition be64 :: "u8 list \<Rightarrow> u64" where
  "be64 bs = foldl (\<lambda>acc b. push_bit 8 acc OR ucast b) 0 (take 8 bs)"

definition be_key :: "u8 list \<Rightarrow> u64" where
  "be_key e = be64 (drop (unat offsetof_sha1) e)"

definition db_file :: "FHandle \<Rightarrow> u8 list list \<Rightarrow> bool" where
  "db_file f es \<longleftrightarrow>
     h_data f = concat es \<and> list_all (\<lambda>e. length e = unat sizeof_GameDbEntry) es
     \<and> length (h_data f) < 2 ^ 32 \<and> (\<forall>p. h_fault f p = RES_OK)"

definition probe_index :: "int \<Rightarrow> int \<Rightarrow> int" where
  "probe_index l r = (if l \<le> r then l + (r - l) div 2 else l)"

definition search_outcome ::
  "u8 list list \<Rightarrow> u64 \<Rightarrow> u32 \<Rightarrow> int \<Rightarrow> Result \<Rightarrow> mem \<Rightarrow> int \<Rightarrow> bool" where
  "search_outcome es x db e res m' pos \<longleftrightarrow>
     (if \<exists>i<length es. entry_key (es ! i) = x
      then res = RES_OK \<and> 0 \<le> pos \<and> nat pos < length es \<and> entry_key (es ! nat pos) = x
           \<and> (\<forall>j<228. m' (db + of_nat j) = es ! nat pos ! j)
      else res = RES_NOT_FOUND \<and> pos = e)"

definition db_entry :: "u8 list \<Rightarrow> u8 list" where
  "db_entry k = replicate 204 0 @ k @ replicate 16 0"

text \<open>
  For save type detection. \<open>promote\<close>: above 16 MiB an EEPROM 8k or 64k type becomes its
  \<open>_2\<close> variant. \<open>literal_at\<close>: the first entry of \<open>saveTypeLut\<close>, in table order, whose string
  stands at an address. \<open>marker_at\<close>: one of \<open>"EEPR"\<close>, \<open>"FLAS"\<close>, \<open>"SRAM"\<close> stands there.
  \<open>scan_positions\<close>: the 32-bit-aligned words from offset \<open>0xE4\<close> below the image size, in
  address order. \<open>first_sdk_match\<close>: the table entry found at the first of these positions
  that has a marker and a matching literal. \<open>override_entry\<close>: the first entry of
  \<open>overrideLut\<close> whose code is the game code without its region byte.
\<close>

definition promote :: "u32 \<Rightarrow> u16 \<Rightarrow> u16" where
  "promote romSize t =
     (if romSize > 0x1000000
      then (if t = SAVE_TYPE_EEPROM_8k then SAVE_TYPE_EEPROM_8k_2
            else if t = SAVE_TYPE_EEPROM_64k then SAVE_TYPE_EEPROM_64k_2 else t)
      else t)"

definition literal_at :: "mem \<Rightarrow> u32 \<Rightarrow> (string \<times> u16) option" where
  "literal_at m p = find (\<lambda>(str, t). memcmp_eq m p (cstr str)) saveTypeLut"

definition marker_at :: "mem \<Rightarrow> u32 \<Rightarrow> bool" where
  "marker_at m p \<longleftrightarrow>
     memcmp_eq m p (cstr ''EEPR'') \<or> memcmp_eq m p (cstr ''FLAS'') \<or> memcmp_eq m p (cstr ''SRAM'')"

definition scan_positions :: "u32 \<Rightarrow> u32 \<Rightarrow> u32 list" where
  "scan_positions ROM_LOC romSize =
     map (\<lambda>k. ROM_LOC + 0xE4 + 4 * of_nat k) [0..<(unat romSize - 0xE4 + 3) div 4]"

definition sdk_hit :: "mem \<Rightarrow> u32 \<Rightarrow> bool" where
  "sdk_hit m p \<longleftrightarrow> marker_at m p \<and> literal_at m p \<noteq> None"

definition first_sdk_match :: "u32 \<Rightarrow> mem \<Rightarrow> u32 \<Rightarrow> (string \<times> u16) option" where
  "first_sdk_match ROM_LOC m romSize =
     (case find (sdk_hit m) (scan_positions ROM_LOC romSize) of
        None \<Rightarrow> None
      | Some p \<Rightarrow> literal_at m p)"

definition override_entry :: "u32 \<Rightarrow> (u8 list \<times> u16) option" where
  "override_entry gameCode = find (\<lambda>(code, t). gameCode AND 0xFFFFFF = load32 code) overrideLut"

primrec scanN :: "nat \<Rightarrow> mem \<Rightarrow> u32 \<Rightarrow> u32 \<Rightarrow> u16" where
  "scanN 0 m romSize p = SAVE_TYPE_NONE"
| "scanN (Suc n) m romSize p =
     (if sdk_hit m p
      then promote romSize (snd (the (literal_at m p)))
      else scanN n m romSize (p + 4))"

text \<open>
  A small ROM image for the examples: zeros, a game code at \<open>0xAC\<close> and one string at
  \<open>0xE4\<close>, based at \<open>0x08000000\<close>.
\<close>

definition rom_image :: "string \<Rightarrow> string \<Rightarrow> mem" where
  "rom_image code sdk =
     store_bytes (store_bytes (\<lambda>a. 0) 0x080000AC (cstr code)) 0x080000E4 (cstr sdk)"

text \<open>
  One round of the loop as a list of calls, \<open>first\<close> telling the round that finds \<open>inited\<close>
  false; a round in which the Y key is down ends with the calls of \<open>dumpFrameTex\<close>.
  \<open>cycles\<close> is the rounds of a run, \<open>ok_waits ys\<close> the input of a run whose waits all succeed,
  with the Y key as in \<open>ys\<close>.
\<close>

definition cycle :: "bool \<Rightarrow> bool \<Rightarrow> Call list" where
  "cycle first keyY =
     [waitForEvent, clearEvent,
      GX_processCommandList (if first then gbaGpuInitList else gbaGpuList2),
      GFX_waitForP3D, GX_displayTransfer FrameToTopScreen, GFX_waitForPPF, GFX_swapFramebufs]
     @ (if keyY then dumpFrameTex else [])"

fun cycles :: "bool \<Rightarrow> bool list \<Rightarrow> Call list" where
  "cycles first [] = []"
| "cycles first (keyY # ys) = cycle first keyY @ cycles False ys"

definition ok_waits :: "bool list \<Rightarrow> (KRes \<times> bool) list" where
  "ok_waits ys = map (Pair KRES_OK) ys"

section \<open>The padding loops\<close>

lemma openBusLoop_fill:
  "unat i + 4 * n = unat lim \<Longrightarrow> openBusLoop lim i p m = Some (openBusFill n i p m)"
proof (induction n arbitrary: i p m)
  case 0
  then have "i = lim" by (simp add: word_unat_eq_iff)
  then show ?case by (subst openBusLoop.simps) simp
next
  case (Suc n)
  have lt: "unat i + 4 < 2 ^ 32"
    using Suc.prems unsigned_less [of lim, where 'a = nat] by simp
  have u: "unat (i + 4) = unat i + 4"
    using lt by (simp add: unat_word_ariths)
  have "i < lim" using Suc.prems by (simp add: word_less_nat_alt)
  moreover have "openBusLoop lim (i + 4) (uadd16 p 0x00020002) (write32 m i p)
      = Some (openBusFill n (i + 4) (uadd16 p 0x00020002) (write32 m i p))"
    by (rule Suc.IH) (use u Suc.prems in simp)
  ultimately show ?case by (subst openBusLoop.simps) simp
qed

lemma unat_sub_ge: "unat b \<le> unat (a::u32) \<Longrightarrow> unat (a - b) = unat a - unat b"
  by (simp add: unat_sub word_le_nat_alt)

lemma write32_other: "4 \<le> unat (x - a) \<Longrightarrow> write32 m a v x = m x"
  by (auto simp add: write32_def word_less_nat_alt)

lemma openBusFill_other:
  "4 * n \<le> unat (x - i) \<Longrightarrow> openBusFill n i p m x = m x"
proof (induction n arbitrary: i p m)
  case 0
  show ?case by simp
next
  case (Suc n)
  have ge: "4 \<le> unat (x - i)" using Suc.prems by simp
  have "unat (x - (i + 4)) = unat (x - i) - 4"
    using unat_sub_ge [of 4 "x - i"] ge by (simp add: diff_diff_eq)
  then have "4 * n \<le> unat (x - (i + 4))" using Suc.prems by simp
  then have "openBusFill n (i + 4) (uadd16 p 0x00020002) (write32 m i p) x = write32 m i p x"
    by (rule Suc.IH)
  then show ?case using ge by (simp add: write32_other)
qed

lemma read32_write32_same: "read32 (write32 m a v) a = v"
proof (rule bit_word_eqI)
  fix n :: nat
  assume "n < LENGTH(32)"
  then have n: "n < 32" by simp
  consider "n < 8" | "8 \<le> n" "n < 16" | "16 \<le> n" "n < 24" | "24 \<le> n" "n < 32"
    using n by linarith
  then show "bit (read32 (write32 m a v) a) n = bit v n"
    by cases (auto simp add: read32_def write32_def bit_simps)
qed

lemma read32_cong:
  "m a = m' a \<Longrightarrow> m (a + 1) = m' (a + 1) \<Longrightarrow> m (a + 2) = m' (a + 2)
   \<Longrightarrow> m (a + 3) = m' (a + 3) \<Longrightarrow> read32 m a = read32 m' a"
  by (simp add: read32_def)

lemma openBusWord_shift: "openBusWord (uadd16 p 0x00020002) k = uadd16 (openBusWord p k) 0x00020002"
  by (induction k) simp_all

lemma openBusFill_first:
  assumes "4 * Suc n \<le> 2 ^ 32"
  shows "read32 (openBusFill (Suc n) i p m) i = p"
proof -
  have far: "4 * n \<le> unat ((i + j) - (i + 4))" if "j < 4" for j :: u32
  proof -
    have "(i + j) - (i + 4) = j - 4" by simp
    moreover have "unat (j - 4) = 2 ^ 32 + unat j - 4"
      using that by (simp add: unat_sub_if_size word_less_nat_alt word_size)
    ultimately show ?thesis using assms by simp
  qed
  have eq: "openBusFill n (i + 4) (uadd16 p 0x00020002) (write32 m i p) (i + j) = write32 m i p (i + j)"
    if "j < 4" for j :: u32
    by (rule openBusFill_other) (rule far [OF that])
  have "read32 (openBusFill n (i + 4) (uadd16 p 0x00020002) (write32 m i p)) i
        = read32 (write32 m i p) i"
    using eq [of 0] eq [of 1] eq [of 2] eq [of 3] by (intro read32_cong) simp_all
  then show ?thesis by (simp add: read32_write32_same)
qed

lemma openBusFill_read:
  "k < n \<Longrightarrow> 4 * n \<le> 2 ^ 32 \<Longrightarrow>
   read32 (openBusFill n i p m) (i + 4 * of_nat k) = openBusWord p k"
proof (induction n arbitrary: i p m k)
  case 0
  then show ?case by simp
next
  case (Suc n)
  show ?case
  proof (cases k)
    case 0
    then show ?thesis using openBusFill_first [OF Suc.prems(2)] by simp
  next
    case (Suc k')
    have "read32 (openBusFill n (i + 4) (uadd16 p 0x00020002) (write32 m i p)) ((i + 4) + 4 * of_nat k')
          = openBusWord (uadd16 p 0x00020002) k'"
      by (rule Suc.IH) (use Suc Suc.prems in simp_all)
    moreover have "(i + 4) + 4 * of_nat k' = i + 4 * of_nat k" using Suc by (simp add: algebra_simps)
    ultimately show ?thesis using Suc by (simp add: openBusWord_shift)
  qed
qed

lemma mirrorLoop_fill:
  "unat i + n * unat sz = unat lim \<Longrightarrow> 0 < sz \<Longrightarrow>
   mirrorLoop lim i base sz m = Some (mirrorFill n i base sz m)"
proof (induction n arbitrary: i m)
  case 0
  have "unat i = unat lim" using "0.prems"(1) by simp
  then have "i = lim" by (simp only: word_unat_eq_iff)
  then show ?case by (subst mirrorLoop.simps) simp
next
  case (Suc n)
  have pos: "0 < unat sz" using Suc.prems(2) by (simp add: word_less_nat_alt)
  have split: "unat i + unat sz + n * unat sz = unat lim" using Suc.prems(1) by simp
  have l32: "unat lim < 2 ^ 32" using unsigned_less [of lim, where 'a = nat] by simp
  have lt: "unat i + unat sz < 2 ^ 32" using split l32 by linarith
  have u: "unat (i + sz) = unat i + unat sz"
    using lt by (simp add: unat_word_ariths)
  have "unat i < unat lim" using split pos by linarith
  then have "i < lim" by (simp add: word_less_nat_alt)
  moreover have "unat (i + sz) + n * unat sz = unat lim" unfolding u by (rule split)
  then have "mirrorLoop lim (i + sz) base sz (memcpy m i base sz)
      = Some (mirrorFill n (i + sz) base sz (memcpy m i base sz))"
    using Suc.prems(2) by (rule Suc.IH)
  ultimately show ?case by (subst mirrorLoop.simps) simp
qed

lemma unat_sub_cases:
  "unat (d - s) = (if unat s \<le> unat d then unat d - unat s else unat d + 2 ^ 32 - unat s)"
  for d s :: u32
  using unat_sub_if' [of d s] by simp

text \<open>Closed form of the mirrored window, for a destination starting one block above the base.\<close>
lemma mirrorFill_closed:
  assumes "unat (i - base) + Suc n * unat sz \<le> 2 ^ 32" "unat sz \<le> unat (i - base)" "0 < sz"
  shows "mirrorFill n i base sz m x =
     (if unat (x - i) < n * unat sz then m (base + of_nat (unat (x - i) mod unat sz)) else m x)"
  using assms
proof (induction n arbitrary: i m)
  case 0
  show ?case by simp
next
  case (Suc n)
  let ?m' = "memcpy m i base sz"
  have pos: "0 < unat sz" using Suc.prems(3) by (simp add: word_less_nat_alt)
  have isz: "unat ((i + sz) - base) = unat (i - base) + unat sz"
  proof -
    have e: "(i + sz) - base = (i - base) + sz" by simp
    have "unat ((i - base) + sz) = unat (i - base) + unat sz"
      using Suc.prems(1) pos by (simp add: unat_word_ariths)
    then show ?thesis unfolding e .
  qed
  have IH: "mirrorFill n (i + sz) base sz ?m' x =
     (if unat (x - (i + sz)) < n * unat sz then ?m' (base + of_nat (unat (x - (i + sz)) mod unat sz)) else ?m' x)"
    by (rule Suc.IH) (use isz Suc.prems in simp_all)
  have src: "?m' (base + of_nat r) = m (base + of_nat r)" if "r < unat sz" for r
  proof -
    have r32: "r < 2 ^ 32" using that unsigned_less [of sz, where 'a = nat] by simp
    have e: "(base + of_nat r) - i = of_nat r - (i - base)" by simp
    have "unat (of_nat r :: u32) = r" using r32 by (simp add: unat_of_nat)
    then have "unat (of_nat r - (i - base)) = r + 2 ^ 32 - unat (i - base)"
      using that Suc.prems(2) unat_sub_cases [of "of_nat r" "i - base"] by simp
    then have "unat sz \<le> unat ((base + of_nat r) - i)"
      unfolding e using Suc.prems(1) that by simp
    then show ?thesis by (simp add: memcpy_def word_less_nat_alt)
  qed
  have xs: "unat (x - (i + sz)) = (if unat sz \<le> unat (x - i) then unat (x - i) - unat sz
                                   else unat (x - i) + 2 ^ 32 - unat sz)"
  proof -
    have e: "x - (i + sz) = (x - i) - sz" by simp
    show ?thesis unfolding e by (rule unat_sub_cases)
  qed
  have unfold: "mirrorFill (Suc n) i base sz m x = mirrorFill n (i + sz) base sz ?m' x"
    by simp
  show ?case
  proof (cases "unat (x - i) < unat sz")
    case True
    then have big: "\<not> unat (x - (i + sz)) < n * unat sz"
      using xs Suc.prems(1) by simp
    have lt: "unat (x - i) < Suc n * unat sz" using True by simp
    have "?m' x = m (base + (x - i))" using True by (simp add: memcpy_def word_less_nat_alt)
    moreover have "of_nat (unat (x - i) mod unat sz) = x - i" using True by simp
    ultimately have "?m' x = m (base + of_nat (unat (x - i) mod unat sz))" by simp
    then show ?thesis unfolding unfold IH using big lt by (simp only: if_True if_False)
  next
    case False
    then have xs': "unat (x - (i + sz)) = unat (x - i) - unat sz" using xs by simp
    have m'x: "?m' x = m x" using False by (simp add: memcpy_def word_less_nat_alt)
    have modeq: "(unat (x - i) - unat sz) mod unat sz = unat (x - i) mod unat sz"
      using False by (simp add: le_mod_geq)
    show ?thesis
    proof (cases "unat (x - i) < Suc n * unat sz")
      case True
      then have c: "unat (x - (i + sz)) < n * unat sz" unfolding xs' using False by simp
      have r: "unat (x - i) mod unat sz < unat sz" using pos by simp
      show ?thesis unfolding unfold IH xs' modeq
        using c [unfolded xs'] True src [OF r] by (simp only: if_True)
    next
      case F2: False
      then have c: "\<not> unat (x - (i + sz)) < n * unat sz" unfolding xs' by simp
      show ?thesis unfolding unfold IH
        using c F2 m'x by (simp only: if_False)
    qed
  qed
qed

lemma lo16_pkhbt: "lo16 (pkhbt a b 16) = lo16 a"
  apply (simp add: lo16_def pkhbt_def)
  apply (rule bit_word_eqI)
  apply (auto simp add: bit_simps)
  done

lemma hi16_pkhbt: "hi16 (pkhbt a b 16) = lo16 b"
  apply (simp add: lo16_def hi16_def pkhbt_def)
  apply (rule bit_word_eqI)
  apply (auto simp add: bit_simps)
  done

lemma lo16_uadd16: "lo16 (uadd16 a b) = lo16 a + lo16 b"
  apply (simp add: lo16_def uadd16_def)
  apply (rule bit_word_eqI)
  apply (auto simp add: bit_simps)
  done

lemma hi16_uadd16: "hi16 (uadd16 a b) = hi16 a + hi16 b"
  apply (simp add: hi16_def uadd16_def)
  apply (rule bit_word_eqI)
  apply (auto simp add: bit_simps dest: bit_imp_le_length)
  done

lemma lo16_step: "lo16 0x00020002 = 2"
  by (simp add: lo16_def)

lemma hi16_step: "hi16 0x00020002 = 2"
  by (simp add: hi16_def)

lemma lo16_add: "lo16 (a + b) = lo16 a + lo16 b"
proof -
  have "unat (ucast (a + b) :: u16) = unat (ucast a + ucast b :: u16)"
    by (simp add: unsigned_ucast_eq take_bit_eq_mod unat_word_ariths mod_mod_cancel mod_add_eq)
  then show ?thesis unfolding lo16_def by (simp only: word_unat_eq_iff)
qed

lemma pow2_ge_spec:
  "\<exists>j. k \<le> j \<and> j \<le> k + f \<and> pow2_ge f (2 ^ k) n = 2 ^ j
       \<and> (n \<le> 2 ^ (k + f) \<longrightarrow> n \<le> 2 ^ j) \<and> (k < j \<longrightarrow> 2 ^ (j - 1) < n)"
proof (induction f arbitrary: k)
  case 0
  show ?case by (rule exI [of _ k]) simp
next
  case (Suc f)
  show ?case
  proof (cases "n \<le> 2 ^ k")
    case True
    then show ?thesis by (intro exI [of _ k]) simp
  next
    case False
    obtain j where j: "Suc k \<le> j" "j \<le> Suc k + f" "pow2_ge f (2 ^ Suc k) n = 2 ^ j"
        "n \<le> 2 ^ (Suc k + f) \<longrightarrow> n \<le> 2 ^ j" "Suc k < j \<longrightarrow> 2 ^ (j - 1) < n"
      using Suc.IH [of "Suc k"] by blast
    have low: "2 ^ (j - 1) < n"
    proof (cases "j = Suc k")
      case True
      then show ?thesis using False by simp
    next
      case False
      then show ?thesis using j(1) j(5) by simp
    qed
    show ?thesis
      by (rule exI [of _ j]) (use False j low in simp)
  qed
qed

lemma pow2_mono: "a \<le> b \<Longrightarrow> (2::nat) ^ a \<le> 2 ^ b"
  by (rule power_increasing) simp_all

lemma pow2_strict_mono: "a < b \<Longrightarrow> (2::nat) ^ a < 2 ^ b"
  by (rule power_strict_increasing) simp_all

lemma nextPow2_props:
  assumes "unat val \<le> 2 ^ 25"
  shows "\<exists>j\<le>25. unat (nextPow2 val) = 2 ^ j \<and> unat val \<le> 2 ^ j
           \<and> (0 < j \<longrightarrow> 2 ^ (j - 1) < unat val)"
proof -
  obtain j where j: "j \<le> 32" "pow2_ge 32 (2 ^ 0) (unat val) = 2 ^ j"
      "unat val \<le> 2 ^ (0 + 32) \<longrightarrow> unat val \<le> 2 ^ j" "0 < j \<longrightarrow> 2 ^ (j - 1) < unat val"
    using pow2_ge_spec [of 0 32 "unat val"] by auto
  have j25: "j \<le> 25"
  proof (rule ccontr)
    assume "\<not> j \<le> 25"
    then have g: "25 \<le> j - 1" "0 < j" by simp_all
    have "(2::nat) ^ 25 \<le> 2 ^ (j - 1)" using g(1) by (rule pow2_mono)
    moreover have "2 ^ (j - 1) < unat val" using g(2) j(4) by simp
    ultimately show False using assms by linarith
  qed
  have "(2::nat) ^ j \<le> 2 ^ 25" using j25 by (rule pow2_mono)
  then have "(2::nat) ^ j mod 2 ^ LENGTH(32) = 2 ^ j" by simp
  then have "unat (of_nat (2 ^ j) :: u32) = 2 ^ j" by (simp only: unat_of_nat)
  then have "unat (nextPow2 val) = 2 ^ j" using j(2) by (simp only: nextPow2_def power_0)
  moreover have "unat val \<le> 2 ^ j" using j(3) assms by simp
  ultimately show ?thesis using j25 j(4) by blast
qed

lemma romSize_props:
  assumes "unat val \<le> 2 ^ 25"
  shows "\<exists>j. 20 \<le> j \<and> j \<le> 25 \<and> unat (max (nextPow2 val) 0x100000) = 2 ^ j
           \<and> unat val \<le> 2 ^ j \<and> (20 < j \<longrightarrow> 2 ^ (j - 1) < unat val)"
proof -
  obtain j where j: "j \<le> 25" "unat (nextPow2 val) = 2 ^ j" "unat val \<le> 2 ^ j"
      "0 < j \<longrightarrow> 2 ^ (j - 1) < unat val"
    using nextPow2_props [OF assms] by blast
  show ?thesis
  proof (cases "j \<le> 20")
    case True
    then have le: "(2::nat) ^ j \<le> 2 ^ 20" by (rule pow2_mono)
    then have "nextPow2 val \<le> 0x100000" using j(2) by (simp add: word_le_nat_alt)
    then have "max (nextPow2 val) 0x100000 = 0x100000" by (simp add: max_def)
    then show ?thesis using j(3) le by (intro exI [of _ 20]) simp
  next
    case False
    then have "(2::nat) ^ 20 < 2 ^ j" by (intro pow2_strict_mono) simp
    then have "\<not> nextPow2 val \<le> 0x100000" using j(2) by (simp add: word_le_nat_alt)
    then have "max (nextPow2 val) 0x100000 = nextPow2 val" by (simp add: max_def)
    then show ?thesis using False j by (intro exI [of _ j]) simp
  qed
qed

lemma fixRomPadding_unfold:
  "fixRomPadding ROM_LOC m fileSize =
     (let romSize = max (nextPow2 fileSize) 0x100000;
          m1 = memset m (ROM_LOC + fileSize) 0xFFFFFFFF (romSize - fileSize)
      in if romSize > 0x100000
         then map_option (Pair romSize)
                (openBusLoop (ROM_LOC + MAX_ROM_SIZE) (ROM_LOC + romSize)
                   (pkhbt ((ROM_LOC + romSize) div 2) ((ROM_LOC + romSize) div 2 + 1) 16) m1)
         else map_option (Pair romSize)
                (mirrorLoop (ROM_LOC + MAX_ROM_SIZE) (ROM_LOC + romSize) ROM_LOC romSize m1))"
proof -
  have "(if nextPow2 fileSize < 0x100000 then 0x100000 else nextPow2 fileSize)
        = max (nextPow2 fileSize) 0x100000"
    by (auto simp add: max_def)
  then show ?thesis by (simp add: fixRomPadding_def Let_def)
qed

lemma window_unat:
  assumes "unat ROM_LOC + 2 ^ 25 < (2::nat) ^ 32" "unat r \<le> 2 ^ 25"
  shows "unat (ROM_LOC + r) = unat ROM_LOC + unat (r :: u32)"
  using assms by (simp add: unat_word_ariths)

lemma window_end_unat:
  assumes "unat ROM_LOC + 2 ^ 25 < (2::nat) ^ 32"
  shows "unat (ROM_LOC + MAX_ROM_SIZE) = unat ROM_LOC + 2 ^ 25"
  using window_unat [OF assms, of MAX_ROM_SIZE] by (simp add: MAX_ROM_SIZE_def)

lemma fixRomPadding_openbus:
  assumes size: "unat fileSize \<le> 2 ^ 25"
    and win: "unat ROM_LOC + 2 ^ 25 < (2::nat) ^ 32"
    and big: "0x100000 < max (nextPow2 fileSize) 0x100000"
  shows "fixRomPadding ROM_LOC m fileSize =
     Some (max (nextPow2 fileSize) 0x100000,
           openBusFill ((2 ^ 25 - unat (max (nextPow2 fileSize) 0x100000)) div 4)
             (ROM_LOC + max (nextPow2 fileSize) 0x100000)
             (pkhbt ((ROM_LOC + max (nextPow2 fileSize) 0x100000) div 2)
                    ((ROM_LOC + max (nextPow2 fileSize) 0x100000) div 2 + 1) 16)
             (memset m (ROM_LOC + fileSize) 0xFFFFFFFF (max (nextPow2 fileSize) 0x100000 - fileSize)))"
proof -
  let ?R = "max (nextPow2 fileSize) 0x100000"
  obtain j where j: "20 \<le> j" "j \<le> 25" "unat ?R = 2 ^ j"
    using romSize_props [OF size] by blast
  have "unat (0x100000 :: u32) < unat ?R" using big by (simp only: word_less_nat_alt)
  then have lt: "(2::nat) ^ 20 < 2 ^ j" using j(3) by simp
  have j2: "2 \<le> j"
  proof (rule ccontr)
    assume "\<not> 2 \<le> j"
    then have "j \<le> 20" by simp
    then have "(2::nat) ^ j \<le> 2 ^ 20" by (rule pow2_mono)
    then show False using lt by simp
  qed
  have R25: "unat ?R \<le> 2 ^ 25" unfolding j(3) using j(2) by (rule pow2_mono)
  have "2 + (j - 2) = j" using j2 by simp
  then have "(2::nat) ^ j = 2 ^ (2 + (j - 2))" by (simp only:)
  also have "\<dots> = 4 * 2 ^ (j - 2)" by (simp only: power_add) simp
  finally have dvd: "(4::nat) dvd 2 ^ 25 - unat ?R" unfolding j(3) by (simp add: dvd_diff_nat)
  have cnt: "unat (ROM_LOC + ?R) + 4 * ((2 ^ 25 - unat ?R) div 4) = unat (ROM_LOC + MAX_ROM_SIZE)"
    unfolding window_end_unat [OF win] window_unat [OF win R25]
    using dvd R25 by simp
  show ?thesis
    unfolding fixRomPadding_unfold Let_def using big openBusLoop_fill [OF cnt] by simp
qed

lemma fixRomPadding_mirror:
  assumes win: "unat ROM_LOC + 2 ^ 25 < (2::nat) ^ 32"
    and small: "max (nextPow2 fileSize) 0x100000 = 0x100000"
  shows "fixRomPadding ROM_LOC m fileSize =
     Some (0x100000,
           mirrorFill 31 (ROM_LOC + 0x100000) ROM_LOC 0x100000
             (memset m (ROM_LOC + fileSize) 0xFFFFFFFF (0x100000 - fileSize)))"
proof -
  have "unat (ROM_LOC + 0x100000) = unat ROM_LOC + unat (0x100000 :: u32)"
    by (rule window_unat [OF win]) simp
  then have cnt: "unat (ROM_LOC + 0x100000) + 31 * unat (0x100000 :: u32) = unat (ROM_LOC + MAX_ROM_SIZE)"
    unfolding window_end_unat [OF win] by simp
  have pos: "(0 :: u32) < 0x100000" by simp
  show ?thesis
    unfolding fixRomPadding_unfold Let_def small
    using mirrorLoop_fill [OF cnt pos] by simp
qed

lemma memset_inside: "a - p < n \<Longrightarrow> memset m p c n a = ucast c"
  by (simp add: memset_def)

lemma memset_outside: "\<not> a - p < n \<Longrightarrow> memset m p c n a = m a"
  by (simp add: memset_def)

lemma offset_diff: "(ROM_LOC + a) - (ROM_LOC + b) = a - (b :: u32)"
  by simp

lemma memset_padding_byte:
  assumes "fileSize \<le> a" "a < r"
  shows "memset m (ROM_LOC + fileSize) 0xFFFFFFFF (r - fileSize) (ROM_LOC + a) = 0xFF"
proof -
  have "unat fileSize \<le> unat a" "unat a < unat r"
    using assms by (simp_all add: word_le_nat_alt word_less_nat_alt)
  then have "unat (a - fileSize) < unat (r - fileSize)"
    by (simp add: unat_sub_cases)
  then have "(ROM_LOC + a) - (ROM_LOC + fileSize) < r - fileSize"
    unfolding offset_diff by (simp only: word_less_nat_alt)
  then show ?thesis by (simp add: memset_inside)
qed

lemma fixRomPadding_result:
  assumes size: "unat fileSize \<le> 2 ^ 25"
    and win: "unat ROM_LOC + 2 ^ 25 < (2::nat) ^ 32"
  shows "\<exists>m'. fixRomPadding ROM_LOC m fileSize = Some (max (nextPow2 fileSize) 0x100000, m')
          \<and> (\<forall>a. fileSize \<le> a \<and> a < max (nextPow2 fileSize) 0x100000 \<longrightarrow> m' (ROM_LOC + a) = 0xFF)"
proof -
  let ?R = "max (nextPow2 fileSize) 0x100000"
  let ?m1 = "memset m (ROM_LOC + fileSize) 0xFFFFFFFF (?R - fileSize)"
  obtain j where j: "20 \<le> j" "j \<le> 25" "unat ?R = 2 ^ j"
    using romSize_props [OF size] by blast
  have R25: "unat ?R \<le> 2 ^ 25" unfolding j(3) using j(2) by (rule pow2_mono)
  show ?thesis
  proof (cases "0x100000 < ?R")
    case True
    let ?n = "(2 ^ 25 - unat ?R) div 4"
    let ?p = "pkhbt ((ROM_LOC + ?R) div 2) ((ROM_LOC + ?R) div 2 + 1) 16"
    have res: "fixRomPadding ROM_LOC m fileSize = Some (?R, openBusFill ?n (ROM_LOC + ?R) ?p ?m1)"
      by (rule fixRomPadding_openbus [OF size win True])
    have "openBusFill ?n (ROM_LOC + ?R) ?p ?m1 (ROM_LOC + a) = 0xFF"
      if a: "fileSize \<le> a" "a < ?R" for a
    proof -
      have "unat a < unat ?R" using a(2) by (simp only: word_less_nat_alt)
      then have "unat (a - ?R) = unat a + 2 ^ 32 - unat ?R" by (simp add: unat_sub_cases)
      then have "4 * ?n \<le> unat ((ROM_LOC + a) - (ROM_LOC + ?R))"
        unfolding offset_diff using R25 by simp
      then have "openBusFill ?n (ROM_LOC + ?R) ?p ?m1 (ROM_LOC + a) = ?m1 (ROM_LOC + a)"
        by (rule openBusFill_other)
      then show ?thesis using memset_padding_byte [OF a] by simp
    qed
    then show ?thesis using res by blast
  next
    case False
    have small: "?R = 0x100000" using False by (auto simp add: max_def not_less)
    let ?i = "ROM_LOC + 0x100000 :: u32"
    let ?m0 = "memset m (ROM_LOC + fileSize) 0xFFFFFFFF (0x100000 - fileSize)"
    have res: "fixRomPadding ROM_LOC m fileSize = Some (0x100000, mirrorFill 31 ?i ROM_LOC 0x100000 ?m0)"
      by (rule fixRomPadding_mirror [OF win small])
    have closed: "mirrorFill 31 ?i ROM_LOC 0x100000 ?m0 x =
        (if unat (x - ?i) < 31 * unat (0x100000 :: u32)
         then ?m0 (ROM_LOC + of_nat (unat (x - ?i) mod unat (0x100000 :: u32))) else ?m0 x)" for x
      by (rule mirrorFill_closed) simp_all
    have "mirrorFill 31 ?i ROM_LOC 0x100000 ?m0 (ROM_LOC + a) = 0xFF"
      if a: "fileSize \<le> a" "a < 0x100000" for a
    proof -
      have "unat a < unat (0x100000 :: u32)" using a(2) by (simp only: word_less_nat_alt)
      then have "unat (a - 0x100000) = unat a + 2 ^ 32 - unat (0x100000 :: u32)"
        by (simp add: unat_sub_cases)
      then have "\<not> unat ((ROM_LOC + a) - ?i) < 31 * unat (0x100000 :: u32)"
        unfolding offset_diff by simp
      then have "mirrorFill 31 ?i ROM_LOC 0x100000 ?m0 (ROM_LOC + a) = ?m0 (ROM_LOC + a)"
        unfolding closed by simp
      then show ?thesis using memset_padding_byte [OF a] by simp
    qed
    then show ?thesis unfolding small using res by blast
  qed
qed

lemma pow2_ge_numeral:
  "pow2_ge (numeral k) p n = (if n \<le> p then p else pow2_ge (pred_numeral k) (2 * p) n)"
  by (simp add: numeral_eq_Suc)

lemma lo16_halfwords: "lo16 (halfwords l h) = l"
  apply (simp add: lo16_def halfwords_def)
  apply (rule bit_word_eqI)
  apply (auto simp add: bit_simps)
  done

lemma hi16_halfwords: "hi16 (halfwords l h) = h"
  apply (simp add: hi16_def halfwords_def)
  apply (rule bit_word_eqI)
  apply (auto simp add: bit_simps dest: bit_imp_le_length)
  done

lemma halfwords_split: "halfwords (lo16 w) (hi16 w) = w"
  apply (simp add: lo16_def hi16_def halfwords_def)
  apply (rule bit_word_eqI)
  apply (auto simp add: bit_simps)
  done

lemma halves_eqI: "lo16 a = lo16 b \<Longrightarrow> hi16 a = hi16 b \<Longrightarrow> a = b"
  by (metis halfwords_split)

lemma pkhbt_halfwords: "pkhbt p (p + 1) 16 = halfwords (ucast p) (ucast p + 1)"
proof (rule halves_eqI)
  show "lo16 (pkhbt p (p + 1) 16) = lo16 (halfwords (ucast p) (ucast p + 1))"
    unfolding lo16_pkhbt lo16_halfwords by (simp add: lo16_def)
  show "hi16 (pkhbt p (p + 1) 16) = hi16 (halfwords (ucast p) (ucast p + 1))"
    unfolding hi16_pkhbt hi16_halfwords lo16_add by (simp add: lo16_def)
qed

lemma uadd16_halfwords: "uadd16 w 0x00020002 = halfwords (lo16 w + 2) (hi16 w + 2)"
  by (rule halves_eqI)
     (simp_all add: lo16_uadd16 hi16_uadd16 lo16_halfwords hi16_halfwords lo16_step hi16_step)

lemma openBusWord_pattern:
  "openBusWord (pkhbt (start div 2) (start div 2 + 1) 16) k = openBusPattern start k"
  by (induction k) (simp_all add: pkhbt_halfwords uadd16_halfwords)

lemma romSize_dvd4:
  assumes "unat fileSize \<le> 2 ^ 25"
  shows "(4::nat) dvd 2 ^ 25 - unat (max (nextPow2 fileSize) 0x100000)"
proof -
  obtain j where j: "20 \<le> j" "unat (max (nextPow2 fileSize) 0x100000) = 2 ^ j"
    using romSize_props [OF assms] by blast
  have "2 + (j - 2) = j" using j(1) by simp
  then have "(2::nat) ^ j = 2 ^ (2 + (j - 2))" by (simp only:)
  also have "\<dots> = 4 * 2 ^ (j - 2)" by (simp only: power_add) simp
  finally show ?thesis unfolding j(2) by (simp add: dvd_diff_nat)
qed

lemma fixRomPadding_openbus_words:
  assumes size: "unat fileSize \<le> 2 ^ 25"
    and win: "unat ROM_LOC + 2 ^ 25 < (2::nat) ^ 32"
    and big: "0x100000 < max (nextPow2 fileSize) 0x100000"
  shows "\<exists>m'. fixRomPadding ROM_LOC m fileSize = Some (max (nextPow2 fileSize) 0x100000, m')
     \<and> (\<forall>k. unat (max (nextPow2 fileSize) 0x100000) + 4 * k < 2 ^ 25 \<longrightarrow>
           read32 m' (ROM_LOC + max (nextPow2 fileSize) 0x100000 + 4 * of_nat k)
             = openBusPattern (ROM_LOC + max (nextPow2 fileSize) 0x100000) k)"
proof -
  let ?R = "max (nextPow2 fileSize) 0x100000"
  let ?n = "(2 ^ 25 - unat ?R) div 4"
  let ?p = "pkhbt ((ROM_LOC + ?R) div 2) ((ROM_LOC + ?R) div 2 + 1) 16"
  let ?m1 = "memset m (ROM_LOC + fileSize) 0xFFFFFFFF (?R - fileSize)"
  have res: "fixRomPadding ROM_LOC m fileSize = Some (?R, openBusFill ?n (ROM_LOC + ?R) ?p ?m1)"
    by (rule fixRomPadding_openbus [OF size win big])
  have n32: "4 * ?n \<le> 2 ^ 32" by simp
  have "read32 (openBusFill ?n (ROM_LOC + ?R) ?p ?m1) (ROM_LOC + ?R + 4 * of_nat k)
          = openBusPattern (ROM_LOC + ?R) k"
    if "unat ?R + 4 * k < 2 ^ 25" for k
  proof -
    have "4 * ?n = 2 ^ 25 - unat ?R" using romSize_dvd4 [OF size] by simp
    then have "k < ?n" using that by linarith
    then show ?thesis using openBusFill_read [OF _ n32] by (simp add: openBusWord_pattern)
  qed
  then show ?thesis using res by blast
qed

lemma small_romSize:
  assumes "unat fileSize \<le> 2 ^ 20"
  shows "max (nextPow2 fileSize) 0x100000 = 0x100000"
proof -
  have size: "unat fileSize \<le> 2 ^ 25" using assms by simp
  obtain j where j: "20 \<le> j" "unat (max (nextPow2 fileSize) 0x100000) = 2 ^ j"
      "20 < j \<longrightarrow> 2 ^ (j - 1) < unat fileSize"
    using romSize_props [OF size] by blast
  have "j = 20"
  proof (rule ccontr)
    assume "j \<noteq> 20"
    then have g: "20 \<le> j - 1" "20 < j" using j(1) by simp_all
    have "(2::nat) ^ 20 \<le> 2 ^ (j - 1)" using g(1) by (rule pow2_mono)
    moreover have "2 ^ (j - 1) < unat fileSize" using g(2) j(3) by simp
    ultimately show False using assms by linarith
  qed
  then have "unat (max (nextPow2 fileSize) 0x100000) = unat (0x100000 :: u32)" using j(2) by simp
  then show ?thesis by (simp only: word_unat_eq_iff)
qed

lemma fixRomPadding_mirror_bytes:
  assumes size: "unat fileSize \<le> 2 ^ 20"
    and win: "unat ROM_LOC + 2 ^ 25 < (2::nat) ^ 32"
  shows "\<exists>m'. fixRomPadding ROM_LOC m fileSize = Some (0x100000, m')
     \<and> (\<forall>a. 0x100000 \<le> a \<and> a < 0x2000000 \<longrightarrow>
           m' (ROM_LOC + a) = m' (ROM_LOC + a mod 0x100000)
         \<and> m' (ROM_LOC + a) =
             memset m (ROM_LOC + fileSize) 0xFFFFFFFF (0x100000 - fileSize) (ROM_LOC + a mod 0x100000))"
proof -
  let ?i = "ROM_LOC + 0x100000 :: u32"
  let ?m0 = "memset m (ROM_LOC + fileSize) 0xFFFFFFFF (0x100000 - fileSize)"
  let ?m' = "mirrorFill 31 ?i ROM_LOC 0x100000 ?m0"
  have res: "fixRomPadding ROM_LOC m fileSize = Some (0x100000, ?m')"
    by (rule fixRomPadding_mirror [OF win small_romSize [OF size]])
  have closed: "?m' x =
      (if unat (x - ?i) < 31 * unat (0x100000 :: u32)
       then ?m0 (ROM_LOC + of_nat (unat (x - ?i) mod unat (0x100000 :: u32))) else ?m0 x)" for x
    by (rule mirrorFill_closed) simp_all
  have first: "?m' (ROM_LOC + r) = ?m0 (ROM_LOC + r)" if "r < 0x100000" for r :: u32
  proof -
    have "unat r < unat (0x100000 :: u32)" using that by (simp only: word_less_nat_alt)
    then have "unat (r - 0x100000) = unat r + 2 ^ 32 - unat (0x100000 :: u32)"
      by (simp add: unat_sub_cases)
    then have "\<not> unat ((ROM_LOC + r) - ?i) < 31 * unat (0x100000 :: u32)"
      unfolding offset_diff by simp
    then show ?thesis unfolding closed by simp
  qed
  have "?m' (ROM_LOC + a) = ?m' (ROM_LOC + a mod 0x100000)
      \<and> ?m' (ROM_LOC + a) = ?m0 (ROM_LOC + a mod 0x100000)"
    if a: "0x100000 \<le> a" "a < 0x2000000" for a :: u32
  proof -
    have ua: "unat (0x100000 :: u32) \<le> unat a" "unat a < unat (0x2000000 :: u32)"
      using a by (simp_all only: word_le_nat_alt word_less_nat_alt)
    then have d: "unat (a - 0x100000) = unat a - unat (0x100000 :: u32)"
      by (simp add: unat_sub_cases)
    have lt: "unat ((ROM_LOC + a) - ?i) < 31 * unat (0x100000 :: u32)"
      unfolding offset_diff d using ua by simp
    have "(unat a - unat (0x100000 :: u32)) mod unat (0x100000 :: u32) = unat a mod unat (0x100000 :: u32)"
      using ua(1) by (simp add: le_mod_geq)
    moreover have "of_nat (unat a mod unat (0x100000 :: u32)) = a mod 0x100000"
      by (metis of_nat_unat ucast_id unat_mod_distrib)
    ultimately have copy: "?m' (ROM_LOC + a) = ?m0 (ROM_LOC + a mod 0x100000)"
      unfolding closed [of "ROM_LOC + a"] using lt unfolding offset_diff d by (simp only: if_True)
    have "a mod 0x100000 < 0x100000" by (simp add: word_mod_less_divisor)
    then have "?m' (ROM_LOC + a mod 0x100000) = ?m0 (ROM_LOC + a mod 0x100000)" by (rule first)
    then show ?thesis using copy by simp
  qed
  then show ?thesis using res by blast
qed

section \<open>Claims about the ROM padding\<close>

text \<open>
  C3. For every file size from 1 byte to 32 MiB, the padding pass returns
  \<open>max (nextPow2 fileSize) (1 MiB)\<close> as the padded size, and afterwards every byte of the
  window at an offset from \<open>fileSize\<close> up to the padded size is \<open>0xFF\<close>. The window is
  taken to lie inside the 32-bit address space.
\<close>

theorem fixRomPadding_padded_size_and_fill:
  assumes "1 \<le> fileSize" "fileSize \<le> MAX_ROM_SIZE"
    and "unat ROM_LOC + unat MAX_ROM_SIZE < 2 ^ 32"
  shows "\<exists>m'. fixRomPadding ROM_LOC m fileSize = Some (max (nextPow2 fileSize) 0x100000, m')
          \<and> (\<forall>a. fileSize \<le> a \<and> a < max (nextPow2 fileSize) 0x100000
                 \<longrightarrow> m' (ROM_LOC + a) = 0xFF)"
proof -
  have size: "unat fileSize \<le> 2 ^ 25"
    using assms(2) by (simp add: MAX_ROM_SIZE_def word_le_nat_alt)
  have win: "unat ROM_LOC + 2 ^ 25 < (2::nat) ^ 32"
    using assms(3) by (simp add: MAX_ROM_SIZE_def)
  show ?thesis by (rule fixRomPadding_result [OF size win])
qed

theorem fixRomPadding_padded_size_and_fill_witness:
  "\<exists>m'. fixRomPadding 0x08000000 (\<lambda>a. 0) 0x300000 = Some (0x400000, m')
        \<and> m' 0x08300005 = 0xFF"
proof -
  have h1: "1 \<le> (0x300000 :: u32)" by simp
  have h2: "(0x300000 :: u32) \<le> MAX_ROM_SIZE" by (simp add: MAX_ROM_SIZE_def)
  have h3: "unat (0x08000000 :: u32) + unat MAX_ROM_SIZE < 2 ^ 32" by (simp add: MAX_ROM_SIZE_def)
  have np: "max (nextPow2 0x300000) 0x100000 = 0x400000"
    by (simp add: nextPow2_def pow2_ge_numeral)
  obtain m' where m': "fixRomPadding 0x08000000 (\<lambda>a. 0) 0x300000 = Some (0x400000, m')"
      "\<forall>a. 0x300000 \<le> a \<and> a < 0x400000 \<longrightarrow> m' (0x08000000 + a) = 0xFF"
    using fixRomPadding_padded_size_and_fill [OF h1 h2 h3, of "\<lambda>a. 0"] unfolding np by blast
  have "m' (0x08000000 + 0x300005) = 0xFF" using m'(2) by (intro m'(2) [rule_format]) simp
  then show ?thesis using m'(1) by simp
qed

text \<open>
  C2. For every file size above 1 MiB (and within the window), the words the padding
  pass leaves from the padded size to the end of the 32 MiB window follow the open-bus
  pattern: the word \<open>k\<close> places after the padded size is \<open>openBusPattern\<close> of the
  first padded address at \<open>k\<close>.
\<close>

theorem fixRomPadding_open_bus:
  assumes "0x100000 < fileSize" "fileSize \<le> MAX_ROM_SIZE"
    and "unat ROM_LOC + unat MAX_ROM_SIZE < 2 ^ 32"
  shows "\<exists>m'. fixRomPadding ROM_LOC m fileSize = Some (max (nextPow2 fileSize) 0x100000, m')
     \<and> 0x100000 < max (nextPow2 fileSize) 0x100000
     \<and> (\<forall>k. unat (max (nextPow2 fileSize) 0x100000) + 4 * k < unat MAX_ROM_SIZE \<longrightarrow>
           read32 m' (ROM_LOC + max (nextPow2 fileSize) 0x100000 + 4 * of_nat k)
             = openBusPattern (ROM_LOC + max (nextPow2 fileSize) 0x100000) k)"
proof -
  have size: "unat fileSize \<le> 2 ^ 25"
    using assms(2) by (simp add: MAX_ROM_SIZE_def word_le_nat_alt)
  have win: "unat ROM_LOC + 2 ^ 25 < (2::nat) ^ 32"
    using assms(3) by (simp add: MAX_ROM_SIZE_def)
  obtain j where j: "unat (max (nextPow2 fileSize) 0x100000) = 2 ^ j" "unat fileSize \<le> 2 ^ j"
    using romSize_props [OF size] by blast
  have "unat (0x100000 :: u32) < unat fileSize" using assms(1) by (simp only: word_less_nat_alt)
  then have "unat (0x100000 :: u32) < unat (max (nextPow2 fileSize) 0x100000)"
    using j by simp
  then have big: "0x100000 < max (nextPow2 fileSize) 0x100000"
    by (simp only: word_less_nat_alt)
  have m: "unat MAX_ROM_SIZE = 2 ^ 25" by (simp add: MAX_ROM_SIZE_def)
  show ?thesis
    using fixRomPadding_openbus_words [OF size win big, of m] big unfolding m by blast
qed

theorem fixRomPadding_open_bus_witness:
  "\<exists>m'. fixRomPadding 0x08000000 (\<lambda>a. 0) 0x300000 = Some (0x400000, m')
        \<and> read32 m' 0x08400004 = 0x00030002"
proof -
  have h1: "0x100000 < (0x300000 :: u32)" by simp
  have h2: "(0x300000 :: u32) \<le> MAX_ROM_SIZE" by (simp add: MAX_ROM_SIZE_def)
  have h3: "unat (0x08000000 :: u32) + unat MAX_ROM_SIZE < 2 ^ 32" by (simp add: MAX_ROM_SIZE_def)
  have np: "max (nextPow2 0x300000) 0x100000 = 0x400000"
    by (simp add: nextPow2_def pow2_ge_numeral)
  obtain m' where m': "fixRomPadding 0x08000000 (\<lambda>a. 0) 0x300000 = Some (0x400000, m')"
      "\<forall>k. unat (0x400000 :: u32) + 4 * k < unat MAX_ROM_SIZE \<longrightarrow>
           read32 m' (0x08000000 + 0x400000 + 4 * of_nat k) = openBusPattern (0x08000000 + 0x400000) k"
    using fixRomPadding_open_bus [OF h1 h2 h3, of "\<lambda>a. 0"] unfolding np by blast
  have "unat (0x400000 :: u32) + 4 * 1 < unat MAX_ROM_SIZE" by (simp add: MAX_ROM_SIZE_def)
  then have "read32 m' (0x08000000 + 0x400000 + 4 * of_nat 1) = openBusPattern (0x08000000 + 0x400000) 1"
    by (rule m'(2) [rule_format])
  moreover have "openBusPattern (0x08000000 + 0x400000) 1 = 0x00030002"
    by (simp add: lo16_halfwords hi16_halfwords) (simp add: halfwords_def)
  ultimately have "read32 m' 0x08400004 = 0x00030002" by simp
  then show ?thesis using m'(1) by blast
qed

text \<open>
  C4. For every file size of at most 1 MiB the padded size is 1 MiB, and afterwards every
  byte of the window from 1 MiB up to the 32 MiB capacity equals the byte at the same
  offset modulo 1 MiB: the first block is tiled over the whole window. Each block is a
  copy of the block at the window base as it stood when the mirroring began (the loaded
  bytes and the \<open>0xFF\<close> fill), not of the block before it.
\<close>

theorem fixRomPadding_mirroring:
  assumes "fileSize \<le> 0x100000"
    and "unat ROM_LOC + unat MAX_ROM_SIZE < 2 ^ 32"
  shows "\<exists>m'. fixRomPadding ROM_LOC m fileSize = Some (0x100000, m')
     \<and> max (nextPow2 fileSize) 0x100000 = 0x100000
     \<and> (\<forall>a. 0x100000 \<le> a \<and> a < MAX_ROM_SIZE \<longrightarrow>
           m' (ROM_LOC + a) = m' (ROM_LOC + a mod 0x100000)
         \<and> m' (ROM_LOC + a) =
             memset m (ROM_LOC + fileSize) 0xFFFFFFFF (0x100000 - fileSize) (ROM_LOC + a mod 0x100000))"
proof -
  have size: "unat fileSize \<le> 2 ^ 20"
    using assms(1) by (simp add: word_le_nat_alt)
  have win: "unat ROM_LOC + 2 ^ 25 < (2::nat) ^ 32"
    using assms(2) by (simp add: MAX_ROM_SIZE_def)
  show ?thesis
    using fixRomPadding_mirror_bytes [OF size win, of m] small_romSize [OF size]
    unfolding MAX_ROM_SIZE_def by blast
qed

theorem fixRomPadding_mirroring_witness:
  "\<exists>m'. fixRomPadding 0x08000000 (\<lambda>a. if a = 0x08000003 then 0x42 else 0) 5 = Some (0x100000, m')
        \<and> m' 0x08300003 = m' 0x08000003 \<and> m' 0x08300003 = 0x42"
proof -
  let ?m = "\<lambda>a :: u32. if a = 0x08000003 then 0x42 else (0 :: u8)"
  have h1: "(5 :: u32) \<le> 0x100000" by simp
  have h2: "unat (0x08000000 :: u32) + unat MAX_ROM_SIZE < 2 ^ 32" by (simp add: MAX_ROM_SIZE_def)
  obtain m' where m': "fixRomPadding 0x08000000 ?m 5 = Some (0x100000, m')"
      "\<forall>a. 0x100000 \<le> a \<and> a < MAX_ROM_SIZE \<longrightarrow>
           m' (0x08000000 + a) = m' (0x08000000 + a mod 0x100000)
         \<and> m' (0x08000000 + a) =
             memset ?m (0x08000000 + 5) 0xFFFFFFFF (0x100000 - 5) (0x08000000 + a mod 0x100000)"
    using fixRomPadding_mirroring [OF h1 h2, of ?m] by blast
  have "(0x100000 :: u32) \<le> 0x300003 \<and> (0x300003 :: u32) < MAX_ROM_SIZE"
    by (simp add: MAX_ROM_SIZE_def)
  then have inst: "m' (0x08000000 + 0x300003) = m' (0x08000000 + 0x300003 mod 0x100000)
         \<and> m' (0x08000000 + 0x300003) =
             memset ?m (0x08000000 + 5) 0xFFFFFFFF (0x100000 - 5) (0x08000000 + 0x300003 mod 0x100000)"
    by (rule m'(2) [rule_format])
  have c1: "m' 0x08300003 = m' 0x08000003" using inst [THEN conjunct1] by simp
  have c2: "m' 0x08300003 = 0x42" using inst [THEN conjunct2] by (simp add: memset_def)
  have "m' 0x08300003 = m' 0x08000003 \<and> m' 0x08300003 = 0x42" using c1 c2 by (rule conjI)
  then show ?thesis using m'(1) by blast
qed

section \<open>Claims about the loader\<close>

lemma fSize_unat: "length (h_data f) < 2 ^ 32 \<Longrightarrow> unat (fSize f) = length (h_data f)"
  by (simp add: fSize_def unat_of_nat)

lemma fSize_reset: "fSize (f\<lparr>h_pos := p\<rparr>) = fSize f"
  by (simp add: fSize_def)

text \<open>
  C7. For every file that opens and is larger than the 32 MiB window, \<open>loadGbaRom\<close>
  returns \<open>RES_ROM_TOO_BIG\<close> and leaves the memory and the caller's size variable as
  they were: nothing is read and no padding is written. (A file's size fits 32 bits.)
\<close>

theorem loadGbaRom_rejects_oversized:
  assumes "fs path = Inr f"
    and "unat MAX_ROM_SIZE < length (h_data f)" "length (h_data f) < 2 ^ 32"
  shows "loadGbaRom ROM_LOC fs path m romSizeOut = Some (RES_ROM_TOO_BIG, m, romSizeOut)"
proof -
  have "unat MAX_ROM_SIZE < unat (fSize f)" using assms(2,3) by (simp add: fSize_unat)
  then have "\<not> fSize f \<le> MAX_ROM_SIZE" by (simp add: word_le_nat_alt)
  then show ?thesis using assms(1) by (simp add: loadGbaRom_def fOpen_def fSize_reset)
qed

theorem loadGbaRom_rejects_oversized_witness:
  "loadGbaRom 0x08000000
     (\<lambda>p. Inr \<lparr>h_data = replicate 0x2100000 0, h_pos = 0, h_fault = (\<lambda>p. RES_OK)\<rparr>)
     ''rom.gba'' (\<lambda>a. 0) 0
   = Some (RES_ROM_TOO_BIG, (\<lambda>a. 0), 0)"
proof -
  let ?f = "\<lparr>h_data = replicate 0x2100000 (0 :: u8), h_pos = 0, h_fault = (\<lambda>p. RES_OK)\<rparr>"
  have h1: "(\<lambda>p :: string. (Inr ?f :: Result + FHandle)) ''rom.gba'' = Inr ?f" by simp
  have h2: "unat MAX_ROM_SIZE < length (h_data ?f)" by (simp add: MAX_ROM_SIZE_def)
  have h3: "length (h_data ?f) < 2 ^ 32" by simp
  show ?thesis
    by (rule loadGbaRom_rejects_oversized [where fs = "\<lambda>p. Inr ?f" and path = "''rom.gba''", OF h1 h2 h3])
qed

text \<open>
  C10. Whenever the opened file fits the window, \<open>loadGbaRom\<close> runs \<open>fixRomPadding\<close> on
  the memory the read loop left and stores the padded size in the caller's variable, and it
  returns the status \<open>res\<close> the read loop ended with, whatever that is. So with a chunk
  read that fails, the error comes back together with a window that has been padded and a
  size that has been written, as for a file of 2 MiB + 5 bytes whose second chunk fails to
  read.
\<close>

theorem loadGbaRom_pads_whatever_the_read_status:
  assumes "fs path = Inr f"
    and "length (h_data f) \<le> unat MAX_ROM_SIZE"
    and "unat ROM_LOC + unat MAX_ROM_SIZE < 2 ^ 32"
    and "readLoop (f\<lparr>h_pos := 0\<rparr>) ROM_LOC m = (res, m1, f1)"
  shows "\<exists>m2. loadGbaRom ROM_LOC fs path m romSizeOut
                 = Some (res, m2, max (nextPow2 (fSize f)) 0x100000)
          \<and> fixRomPadding ROM_LOC m1 (fSize f) = Some (max (nextPow2 (fSize f)) 0x100000, m2)
          \<and> (\<forall>a. fSize f \<le> a \<and> a < max (nextPow2 (fSize f)) 0x100000
                 \<longrightarrow> m2 (ROM_LOC + a) = 0xFF)"
proof -
  have len: "length (h_data f) \<le> 2 ^ 25" using assms(2) by (simp add: MAX_ROM_SIZE_def)
  then have u: "unat (fSize f) = length (h_data f)" by (intro fSize_unat) simp
  have size: "unat (fSize f) \<le> 2 ^ 25" using len u by simp
  then have le: "fSize f \<le> MAX_ROM_SIZE" by (simp add: word_le_nat_alt MAX_ROM_SIZE_def)
  have win: "unat ROM_LOC + 2 ^ 25 < (2::nat) ^ 32"
    using assms(3) by (simp add: MAX_ROM_SIZE_def)
  obtain m2 where m2: "fixRomPadding ROM_LOC m1 (fSize f) = Some (max (nextPow2 (fSize f)) 0x100000, m2)"
      "\<forall>a. fSize f \<le> a \<and> a < max (nextPow2 (fSize f)) 0x100000 \<longrightarrow> m2 (ROM_LOC + a) = 0xFF"
    using fixRomPadding_result [OF size win, of m1] by blast
  have "loadGbaRom ROM_LOC fs path m romSizeOut = Some (res, m2, max (nextPow2 (fSize f)) 0x100000)"
    using assms(1,4) le m2(1) by (simp add: loadGbaRom_def fOpen_def fSize_reset)
  then show ?thesis using m2 by blast
qed

theorem loadGbaRom_pads_whatever_the_read_status_witness:
  "\<exists>m2. loadGbaRom 0x08000000
     (\<lambda>p. Inr \<lparr>h_data = replicate 0x200005 0, h_pos = 0,
                h_fault = (\<lambda>p. if p = 0x100000 then RES_FR 1 else RES_OK)\<rparr>)
     ''rom.gba'' (\<lambda>a. 0) 0
   = Some (RES_FR 1, m2, 0x400000) \<and> m2 0x08200005 = 0xFF"
proof -
  let ?f = "\<lparr>h_data = replicate 0x200005 (0 :: u8), h_pos = 0,
              h_fault = (\<lambda>p. if p = 0x100000 then RES_FR 1 else RES_OK)\<rparr>"
  let ?fs = "\<lambda>p :: string. (Inr ?f :: Result + FHandle)"
  let ?m1 = "store_bytes (\<lambda>a. 0) 0x08000000 (replicate 0x100000 (0 :: u8))"
  have h1: "?fs ''rom.gba'' = Inr ?f" by simp
  have h2: "length (h_data ?f) \<le> unat MAX_ROM_SIZE" by (simp add: MAX_ROM_SIZE_def)
  have h3: "unat (0x08000000 :: u32) + unat MAX_ROM_SIZE < 2 ^ 32" by (simp add: MAX_ROM_SIZE_def)
  have r2: "readLoop (?f\<lparr>h_pos := 0x100000\<rparr>) (0x08000000 + 0x100000) ?m1
      = (RES_FR 1, ?m1, ?f\<lparr>h_pos := 0x100000\<rparr>)"
    by (subst readLoop.simps) (simp add: fRead_def)
  have h4: "readLoop (?f\<lparr>h_pos := 0\<rparr>) 0x08000000 (\<lambda>a. 0)
      = (RES_FR 1, ?m1, ?f\<lparr>h_pos := 0x100000\<rparr>)"
    by (subst readLoop.simps) (simp add: fRead_def Let_def r2 [simplified])
  have sz: "fSize ?f = 0x200005" by (simp add: fSize_def)
  have np: "max (nextPow2 0x200005) 0x100000 = 0x400000"
    by (simp add: nextPow2_def pow2_ge_numeral)
  obtain m2 where m2: "loadGbaRom 0x08000000 ?fs ''rom.gba'' (\<lambda>a. 0) 0 = Some (RES_FR 1, m2, 0x400000)"
      "\<forall>a. 0x200005 \<le> a \<and> a < 0x400000 \<longrightarrow> m2 (0x08000000 + a) = 0xFF"
    using loadGbaRom_pads_whatever_the_read_status
            [where fs = ?fs and path = "''rom.gba''" and romSizeOut = 0, OF h1 h2 h3 h4]
    unfolding sz np by blast
  have "m2 (0x08000000 + 0x200005) = 0xFF" by (intro m2(2) [rule_format]) simp
  then show ?thesis using m2(1) by simp
qed

section \<open>Claims about the game database\<close>

lemma concat_block:
  "list_all (\<lambda>e. length e = n) es \<Longrightarrow> i < length es \<Longrightarrow>
   take n (drop (n * i) (concat es)) = es ! i"
proof (induction es arbitrary: i)
  case Nil
  then show ?case by simp
next
  case (Cons e es)
  show ?case
  proof (cases i)
    case 0
    then show ?thesis using Cons.prems by simp
  next
    case (Suc k)
    then have "take n (drop (n * k) (concat es)) = es ! k" using Cons by simp
    then show ?thesis using Suc Cons.prems by simp
  qed
qed

lemma concat_length:
  "list_all (\<lambda>e. length e = n) es \<Longrightarrow> length (concat es) = n * length es"
  by (induction es) simp_all

lemma store_bytes_at:
  "j < length bs \<Longrightarrow> length bs < 2 ^ 32 \<Longrightarrow> store_bytes m buf bs (buf + of_nat j) = bs ! j"
  by (simp add: store_bytes_def unat_of_nat)

lemma read64_store_bytes:
  assumes "length bs = 228"
  shows "read64 (store_bytes m buf bs) (buf + offsetof_sha1) = entry_key bs"
proof -
  have at: "store_bytes m buf bs (buf + 204 + of_nat j) = bs ! (204 + j)" if "j < 8" for j
  proof -
    have e: "buf + 204 + of_nat j = buf + of_nat (204 + j)" by simp
    show ?thesis unfolding e by (rule store_bytes_at) (use assms that in simp_all)
  qed
  have "map (\<lambda>j. store_bytes m buf bs (buf + 204 + of_nat j)) [0..<8] = map (\<lambda>j. bs ! (204 + j)) [0..<8]"
    by (rule map_cong) (simp_all add: at)
  also have "\<dots> = take 8 (drop 204 bs)"
    by (rule nth_equalityI) (simp_all add: assms)
  finally show ?thesis
    by (simp add: read64_def entry_key_def offsetof_sha1_def load64_def)
qed

lemma s32_id: "- (2 ^ 31) \<le> k \<Longrightarrow> k < 2 ^ 31 \<Longrightarrow> s32 k = k"
  unfolding s32_def by (rule signed_take_bit_int_eq_self)

lemma mid_value:
  assumes "0 \<le> l" "l \<le> r + 1" "r < 2 ^ 30"
  shows "s32 (l + s32 (s32 (r - l) sdiv 2)) = (if l \<le> r then l + (r - l) div 2 else l)"
proof -
  have a: "s32 (r - l) = r - l" by (rule s32_id) (use assms in simp_all)
  have b: "(r - l) sdiv 2 = (if l \<le> r then (r - l) div 2 else 0)"
    using assms by (auto simp add: signed_divide_int_def sgn_if)
  have c: "s32 ((r - l) sdiv 2) = (r - l) sdiv 2" by (rule s32_id) (use assms b in \<open>simp_all split: if_splits\<close>)
  have d: "s32 (l + (r - l) sdiv 2) = l + (r - l) sdiv 2"
    by (rule s32_id) (use assms b in \<open>simp_all split: if_splits\<close>)
  have "s32 (l + s32 (s32 (r - l) sdiv 2)) = s32 (l + s32 ((r - l) sdiv 2))" by (simp only: a)
  also have "\<dots> = s32 (l + (r - l) sdiv 2)" by (simp only: c)
  also have "\<dots> = l + (r - l) sdiv 2" by (rule d)
  also have "\<dots> = (if l \<le> r then l + (r - l) div 2 else l)" by (simp add: b)
  finally show ?thesis .
qed

lemma probe:
  assumes wf: "db_file f es" and mid: "0 \<le> mid" "nat mid < length es"
  shows "fLseek f (sizeof_GameDbEntry * of_int mid) = (RES_OK, f\<lparr>h_pos := 228 * nat mid\<rparr>)"
    and "fRead (f\<lparr>h_pos := 228 * nat mid\<rparr>) db sizeof_GameDbEntry m
         = (RES_OK, 228, store_bytes m db (es ! nat mid), f\<lparr>h_pos := 228 * nat mid + 228\<rparr>)"
proof -
  have all: "list_all (\<lambda>e. length e = 228) es" and data: "h_data f = concat es"
    and len32: "length (h_data f) < 2 ^ 32" and ok: "\<And>p. h_fault f p = RES_OK"
    using wf by (auto simp add: db_file_def sizeof_GameDbEntry_def)
  have len: "length (h_data f) = 228 * length es" unfolding data by (rule concat_length [OF all])
  have lt: "228 * nat mid + 228 \<le> length (h_data f)" using mid(2) len by simp
  then have lt32: "228 * nat mid < 2 ^ 32" using len32 by linarith
  have "of_int mid = (of_nat (nat mid) :: u32)" using mid(1) by simp
  then have "sizeof_GameDbEntry * of_int mid = (of_nat (228 * nat mid) :: u32)"
    by (simp add: sizeof_GameDbEntry_def)
  moreover have "unat (of_nat (228 * nat mid) :: u32) = 228 * nat mid"
    using lt32 by (simp only: unat_of_nat) simp
  ultimately have u: "unat (sizeof_GameDbEntry * of_int mid) = 228 * nat mid" by simp
  show "fLseek f (sizeof_GameDbEntry * of_int mid) = (RES_OK, f\<lparr>h_pos := 228 * nat mid\<rparr>)"
    unfolding fLseek_def u using lt by simp
  have chunk: "take 228 (drop (228 * nat mid) (h_data f)) = es ! nat mid"
    unfolding data by (rule concat_block [OF all mid(2)])
  have l228: "length (es ! nat mid) = 228"
    using all mid(2) by (simp add: list_all_length)
  show "fRead (f\<lparr>h_pos := 228 * nat mid\<rparr>) db sizeof_GameDbEntry m
         = (RES_OK, 228, store_bytes m db (es ! nat mid), f\<lparr>h_pos := 228 * nat mid + 228\<rparr>)"
    using ok chunk l228 by (simp add: fRead_def sizeof_GameDbEntry_def Let_def)
qed

lemma db_file_pos: "db_file (f\<lparr>h_pos := p\<rparr>) es = db_file f es"
  by (simp add: db_file_def)

lemma db_file_count:
  assumes "db_file f es"
  shows "int (length es) < 2 ^ 25" and "fSize f div sizeof_GameDbEntry = of_nat (length es)"
proof -
  have all: "list_all (\<lambda>e. length e = 228) es" and data: "h_data f = concat es"
    and len32: "length (h_data f) < 2 ^ 32"
    using assms by (auto simp add: db_file_def sizeof_GameDbEntry_def)
  have len: "length (h_data f) = 228 * length es" unfolding data by (rule concat_length [OF all])
  then have "228 * length es < 2 ^ 32" using len32 by simp
  then have n: "length es < 2 ^ 25" by simp
  then show "int (length es) < 2 ^ 25" by simp
  have "unat (fSize f) = 228 * length es" using len32 len by (simp add: fSize_unat)
  then have "unat (fSize f div sizeof_GameDbEntry) = length es"
    by (simp add: unat_div sizeof_GameDbEntry_def)
  moreover have "unat (of_nat (length es) :: u32) = length es"
    using n by (simp only: unat_of_nat) simp
  ultimately show "fSize f div sizeof_GameDbEntry = of_nat (length es)"
    by (simp only: word_unat_eq_iff)
qed

lemma searchLoop_step:
  assumes wf: "db_file f es"
    and inv: "0 \<le> l" "l \<le> r + 1" "r < int (length es)" "l < int (length es)"
  shows "searchLoop f x db m e l r =
     (let mid = probe_index l r;
          m2 = store_bytes m db (es ! nat mid);
          f2 = f\<lparr>h_pos := 228 * nat mid + 228\<rparr>;
          tmp = entry_key (es ! nat mid)
      in if tmp = x then Some (RES_OK, m2, mid, f2)
         else if r \<le> l \<or> r < 0 then Some (RES_NOT_FOUND, m2, e, f2)
         else if tmp > x then searchLoop f2 x db m2 e l (mid - 1)
         else searchLoop f2 x db m2 e (mid + 1) r)"
proof -
  let ?mid = "probe_index l r"
  have n: "int (length es) < 2 ^ 25" by (rule db_file_count(1) [OF wf])
  have midv: "s32 (l + s32 (s32 (r - l) sdiv 2)) = ?mid"
    unfolding probe_index_def by (rule mid_value) (use inv n in simp_all)
  have range: "l \<le> ?mid" "?mid \<le> max l r" using inv by (auto simp add: probe_index_def)
  then have mid: "0 \<le> ?mid" "nat ?mid < length es" using inv by auto
  have l228: "length (es ! nat ?mid) = 228"
    using wf mid(2) by (auto simp add: db_file_def sizeof_GameDbEntry_def list_all_length)
  have key: "read64 (store_bytes m db (es ! nat ?mid)) (db + offsetof_sha1) = entry_key (es ! nat ?mid)"
    by (rule read64_store_bytes [OF l228])
  have dn: "s32 (?mid - 1) = ?mid - 1" by (rule s32_id) (use mid n in simp_all)
  have up: "s32 (?mid + 1) = ?mid + 1" by (rule s32_id) (use mid n in simp_all)
  show ?thesis
    by (subst searchLoop.simps)
       (simp add: midv probe [OF wf mid] key dn up Let_def)
qed

lemma key_mono:
  "sorted (map entry_key es) \<Longrightarrow> i \<le> j \<Longrightarrow> j < length es \<Longrightarrow>
   entry_key (es ! i) \<le> entry_key (es ! j)"
  using sorted_nth_mono [of "map entry_key es" i j] by simp

lemma searchLoop_correct:
  assumes "db_file f es" and "sorted (map entry_key es)"
    and "0 \<le> l" "l \<le> r + 1" "r < int (length es)" "l < int (length es)"
    and "\<forall>i<length es. entry_key (es ! i) = x \<longrightarrow> l \<le> int i \<and> int i \<le> r"
  shows "\<exists>res m' pos f'. searchLoop f x db m e l r = Some (res, m', pos, f')
           \<and> search_outcome es x db e res m' pos"
  using assms
proof (induction "nat (r - l + 1)" arbitrary: f m l r rule: less_induct)
  case less
  let ?mid = "probe_index l r"
  let ?m2 = "store_bytes m db (es ! nat ?mid)"
  let ?f2 = "f\<lparr>h_pos := 228 * nat ?mid + 228\<rparr>"
  let ?k = "entry_key (es ! nat ?mid)"
  note wf = less.prems(1) and srt = less.prems(2)
    and inv = less.prems(3-6) and cand = less.prems(7)
  note step = searchLoop_step [OF wf inv, of x db m e, unfolded Let_def]
  have wf2: "db_file ?f2 es" using wf by (simp add: db_file_pos)
  have range: "l \<le> ?mid" "?mid \<le> max l r" using inv by (auto simp add: probe_index_def)
  then have mid: "0 \<le> ?mid" "nat ?mid < length es" using inv by auto
  have l228: "length (es ! nat ?mid) = 228"
    using wf mid(2) by (auto simp add: db_file_def sizeof_GameDbEntry_def list_all_length)
  show ?case
  proof (cases "?k = x")
    case True
    have buf: "\<forall>j<228. ?m2 (db + of_nat j) = es ! nat ?mid ! j"
      using l228 by (simp add: store_bytes_at)
    have "\<exists>i<length es. entry_key (es ! i) = x" using True mid(2) by blast
    then have "search_outcome es x db e RES_OK ?m2 ?mid"
      unfolding search_outcome_def using True mid buf by simp
    moreover have "searchLoop f x db m e l r = Some (RES_OK, ?m2, ?mid, ?f2)"
      using step True by simp
    ultimately show ?thesis by blast
  next
    case ne: False
    show ?thesis
    proof (cases "r \<le> l \<or> r < 0")
      case True
      then have rl: "r \<le> l" using inv(1) by auto
      then have midl: "?mid = l" using inv(2) by (auto simp add: probe_index_def)
      have none: "\<not> (\<exists>i<length es. entry_key (es ! i) = x)"
      proof
        assume "\<exists>i<length es. entry_key (es ! i) = x"
        then obtain i where i: "i < length es" "entry_key (es ! i) = x" by blast
        then have "l \<le> int i" "int i \<le> r" using cand by simp_all
        then have "int i = l" using rl by simp
        then have "nat ?mid = i" using midl by simp
        then show False using ne i(2) by simp
      qed
      then have "search_outcome es x db e RES_NOT_FOUND ?m2 e"
        unfolding search_outcome_def by simp
      moreover have "searchLoop f x db m e l r = Some (RES_NOT_FOUND, ?m2, e, ?f2)"
        using step ne True by simp
      ultimately show ?thesis by blast
    next
      case False
      then have lr: "l < r" "0 \<le> r" by simp_all
      then have midr: "?mid < r" by (simp add: probe_index_def)
      show ?thesis
      proof (cases "x < ?k")
        case True
        have c: "\<forall>i<length es. entry_key (es ! i) = x \<longrightarrow> l \<le> int i \<and> int i \<le> ?mid - 1"
        proof (intro allI impI)
          fix i assume i: "i < length es" "entry_key (es ! i) = x"
          have "\<not> nat ?mid \<le> i"
          proof
            assume a: "nat ?mid \<le> i"
            have "?k \<le> entry_key (es ! i)" by (rule key_mono [OF srt a i(1)])
            then show False using True i(2) by simp
          qed
          then have "int i \<le> ?mid - 1" using mid(1) by linarith
          then show "l \<le> int i \<and> int i \<le> ?mid - 1" using cand i by simp
        qed
        have "nat (?mid - 1 - l + 1) < nat (r - l + 1)" using range(1) midr by simp
        then have "\<exists>res m' pos f'. searchLoop ?f2 x db ?m2 e l (?mid - 1) = Some (res, m', pos, f')
              \<and> search_outcome es x db e res m' pos"
          using wf2 srt inv(1) _ _ inv(4) c
          by (rule less.hyps) (use range mid in simp_all)
        moreover have "searchLoop f x db m e l r = searchLoop ?f2 x db ?m2 e l (?mid - 1)"
          using step ne False True by simp
        ultimately show ?thesis by simp
      next
        case nlt: False
        then have gt: "?k < x" using ne by simp
        have c: "\<forall>i<length es. entry_key (es ! i) = x \<longrightarrow> ?mid + 1 \<le> int i \<and> int i \<le> r"
        proof (intro allI impI)
          fix i assume i: "i < length es" "entry_key (es ! i) = x"
          have "\<not> i \<le> nat ?mid"
          proof
            assume a: "i \<le> nat ?mid"
            have "entry_key (es ! i) \<le> ?k" by (rule key_mono [OF srt a mid(2)])
            then show False using gt i(2) by simp
          qed
          then have "?mid + 1 \<le> int i" using mid(1) by linarith
          then show "?mid + 1 \<le> int i \<and> int i \<le> r" using cand i by simp
        qed
        have "nat (r - (?mid + 1) + 1) < nat (r - l + 1)" using range(1) midr by simp
        then have "\<exists>res m' pos f'. searchLoop ?f2 x db ?m2 e (?mid + 1) r = Some (res, m', pos, f')
              \<and> search_outcome es x db e res m' pos"
          using wf2 srt _ _ inv(3) _ c
          by (rule less.hyps) (use range mid midr inv in simp_all)
        moreover have "searchLoop f x db m e l r = searchLoop ?f2 x db ?m2 e (?mid + 1) r"
          using step ne False nlt by simp
        ultimately show ?thesis by simp
      qed
    qed
  qed
qed

lemma initial_right:
  assumes "db_file f es" "es \<noteq> []"
  shows "sint (fSize f div sizeof_GameDbEntry - 1) = int (length es) - 1"
proof -
  have n: "int (length es) < 2 ^ 25" by (rule db_file_count(1) [OF assms(1)])
  have e: "(of_nat (length es) :: u32) - 1 = word_of_int (int (length es) - 1)" by simp
  have "signed_take_bit 31 (int (length es) - 1) = int (length es) - 1"
    by (rule signed_take_bit_int_eq_self) (use n in simp_all)
  then show ?thesis unfolding db_file_count(2) [OF assms(1)] e sint_sbintrunc' by simp
qed

text \<open>
  C6, amended. For every database file that is a non-empty array of 228-byte records sorted
  ascending by the first 8 bytes of each record's hash read as a little-endian 64-bit
  number (the way the search loads them), and whose reads succeed: the lookup of a key
  returns \<open>RES_OK\<close>, the position of a record with that key and that record in the buffer
  whenever some record has the key, and \<open>RES_NOT_FOUND\<close> with the position variable
  untouched whenever none has. Every round probes \<open>l + (r - l) / 2\<close>, stops with
  \<open>RES_NOT_FOUND\<close> once \<open>r \<le> l\<close> and the probe has missed, goes on in the lower half when the
  probed key is greater than the searched one and in the upper half otherwise.
\<close>

theorem searchGameDb_native_order:
  assumes "fs ''gba_db.bin'' = Inr f" and "db_file f es" and "es \<noteq> []"
    and "sorted (map entry_key es)"
  shows "(\<exists>res m' pos. searchGameDb fs x db m entryPos = Some (res, m', pos)
            \<and> search_outcome es x db entryPos res m' pos)
     \<and> (\<forall>l r. 0 \<le> l \<and> l \<le> r + 1 \<and> r < int (length es) \<and> l < int (length es) \<longrightarrow>
          searchLoop f x db m entryPos l r =
            (let mid = probe_index l r;
                 m2 = store_bytes m db (es ! nat mid);
                 f2 = f\<lparr>h_pos := 228 * nat mid + 228\<rparr>;
                 tmp = entry_key (es ! nat mid)
             in if tmp = x then Some (RES_OK, m2, mid, f2)
                else if r \<le> l \<or> r < 0 then Some (RES_NOT_FOUND, m2, entryPos, f2)
                else if tmp > x then searchLoop f2 x db m2 entryPos l (mid - 1)
                else searchLoop f2 x db m2 entryPos (mid + 1) r))"
proof -
  let ?f = "f\<lparr>h_pos := 0\<rparr>"
  have wf: "db_file ?f es" using assms(2) by (simp add: db_file_pos)
  have r: "sint (fSize ?f div sizeof_GameDbEntry - 1) = int (length es) - 1"
    by (rule initial_right [OF wf assms(3)])
  have pos: "0 < int (length es)" using assms(3) by simp
  have "\<exists>res m' pos f'. searchLoop ?f x db m entryPos 0 (int (length es) - 1) = Some (res, m', pos, f')
           \<and> search_outcome es x db entryPos res m' pos"
    by (rule searchLoop_correct [OF wf assms(4)]) (use pos in simp_all)
  then obtain res m' p f' where
    "searchLoop ?f x db m entryPos 0 (int (length es) - 1) = Some (res, m', p, f')"
    "search_outcome es x db entryPos res m' p" by blast
  then have "searchGameDb fs x db m entryPos = Some (res, m', p)
      \<and> search_outcome es x db entryPos res m' p"
    using assms(1) r by (simp add: searchGameDb_def fOpen_def)
  then have A: "\<exists>res m' pos. searchGameDb fs x db m entryPos = Some (res, m', pos)
            \<and> search_outcome es x db entryPos res m' pos" by blast
  have B: "searchLoop f x db m entryPos l r =
            (let mid = probe_index l r;
                 m2 = store_bytes m db (es ! nat mid);
                 f2 = f\<lparr>h_pos := 228 * nat mid + 228\<rparr>;
                 tmp = entry_key (es ! nat mid)
             in if tmp = x then Some (RES_OK, m2, mid, f2)
                else if r \<le> l \<or> r < 0 then Some (RES_NOT_FOUND, m2, entryPos, f2)
                else if tmp > x then searchLoop f2 x db m2 entryPos l (mid - 1)
                else searchLoop f2 x db m2 entryPos (mid + 1) r)"
    if "0 \<le> l \<and> l \<le> r + 1 \<and> r < int (length es) \<and> l < int (length es)" for l r
    by (rule searchLoop_step [OF assms(2)]) (use that in simp_all)
  show ?thesis using A B by blast
qed

lemma entry_key_db_entry: "length k = 8 \<Longrightarrow> entry_key (db_entry k) = load64 k"
  by (simp add: entry_key_def db_entry_def offsetof_sha1_def load64_def)

lemma be_key_db_entry: "length k = 8 \<Longrightarrow> be_key (db_entry k) = be64 k"
  by (simp add: be_key_def db_entry_def offsetof_sha1_def be64_def)

lemma db_file_entries:
  "list_all (\<lambda>k. length k = 8) ks \<Longrightarrow> length ks < 1000 \<Longrightarrow>
   db_file \<lparr>h_data = concat (map db_entry ks), h_pos = p, h_fault = (\<lambda>p. RES_OK)\<rparr> (map db_entry ks)"
proof -
  assume a: "list_all (\<lambda>k. length k = 8) ks" and n: "length ks < 1000"
  have all: "list_all (\<lambda>e. length e = 228) (map db_entry ks)"
    using a by (induction ks) (simp_all add: db_entry_def)
  have "length (concat (map db_entry ks)) = 228 * length (map db_entry ks)"
    by (rule concat_length [OF all])
  then have "length (concat (map db_entry ks)) < 2 ^ 32" using n by simp
  then show ?thesis using all by (simp add: db_file_def sizeof_GameDbEntry_def)
qed

theorem searchGameDb_native_order_witness:
  "\<exists>m' pos. searchGameDb
       (\<lambda>p. Inr \<lparr>h_data = concat (map db_entry [[1,0,0,0,0,0,0,0], [2,0,0,0,0,0,0,0], [0,0,0,0,0,0,0,1]]),
                  h_pos = 0, h_fault = (\<lambda>p. RES_OK)\<rparr>)
       2 0x1000 (\<lambda>a. 0) (- 1)
     = Some (RES_OK, m', pos)
     \<and> entry_key (map db_entry [[1,0,0,0,0,0,0,0], [2,0,0,0,0,0,0,0], [0,0,0,0,0,0,0,1]] ! nat pos) = 2"
proof -
  let ?ks = "[[1,0,0,0,0,0,0,0], [2,0,0,0,0,0,0,0], [0,0,0,0,0,0,0,1]] :: u8 list list"
  let ?es = "map db_entry ?ks"
  let ?f = "\<lparr>h_data = concat ?es, h_pos = 0, h_fault = (\<lambda>p. RES_OK)\<rparr>"
  let ?fs = "\<lambda>p :: string. (Inr ?f :: Result + FHandle)"
  have h1: "?fs ''gba_db.bin'' = Inr ?f" by simp
  have h2: "db_file ?f ?es" by (rule db_file_entries) simp_all
  have h3: "?es \<noteq> []" by simp
  have keys: "map entry_key ?es = [1, 2, 0x0100000000000000]"
    by (simp add: entry_key_db_entry load64_def)
  have h4: "sorted (map entry_key ?es)" unfolding keys by simp
  have ex: "\<exists>i<length ?es. entry_key (?es ! i) = 2"
    by (rule exI [of _ 1]) (simp add: entry_key_db_entry load64_def)
  obtain res m' pos where
    r: "searchGameDb ?fs 2 0x1000 (\<lambda>a. 0) (- 1) = Some (res, m', pos)"
       "search_outcome ?es 2 0x1000 (- 1) res m' pos"
    using searchGameDb_native_order [where fs = ?fs and x = 2 and db = "0x1000" and m = "\<lambda>a. 0"
        and entryPos = "- 1", OF h1 h2 h3 h4, THEN conjunct1] by blast
  have "res = RES_OK \<and> entry_key (?es ! nat pos) = 2"
    using r(2) ex unfolding search_outcome_def by (simp only: if_True)
  then show ?thesis using r(1) by blast
qed

text \<open>
  C6 as stated fails: three records in ascending big-endian order of their keys, the
  third of which holds the searched key, and the lookup answers \<open>RES_NOT_FOUND\<close>.
\<close>

theorem searchGameDb_big_endian_order_counterexample:
  "db_file \<lparr>h_data = concat (map db_entry [[0,0,0,0,0,0,0,2], [0,0,0,0,0,0,0,3], [1,0,0,0,0,0,0,0]]),
             h_pos = 0, h_fault = (\<lambda>p. RES_OK)\<rparr>
           (map db_entry [[0,0,0,0,0,0,0,2], [0,0,0,0,0,0,0,3], [1,0,0,0,0,0,0,0]])
   \<and> sorted (map be_key (map db_entry [[0,0,0,0,0,0,0,2], [0,0,0,0,0,0,0,3], [1,0,0,0,0,0,0,0]]))
   \<and> entry_key (map db_entry [[0,0,0,0,0,0,0,2], [0,0,0,0,0,0,0,3], [1,0,0,0,0,0,0,0]] ! 2) = 1
   \<and> map_option fst (searchGameDb
       (\<lambda>p. Inr \<lparr>h_data = concat (map db_entry [[0,0,0,0,0,0,0,2], [0,0,0,0,0,0,0,3], [1,0,0,0,0,0,0,0]]),
                  h_pos = 0, h_fault = (\<lambda>p. RES_OK)\<rparr>)
       1 0x1000 (\<lambda>a. 0) (- 1))
     = Some RES_NOT_FOUND"
proof -
  let ?ks = "[[0,0,0,0,0,0,0,2], [0,0,0,0,0,0,0,3], [1,0,0,0,0,0,0,0]] :: u8 list list"
  let ?es = "map db_entry ?ks"
  let ?f = "\<lparr>h_data = concat ?es, h_pos = 0, h_fault = (\<lambda>p. RES_OK)\<rparr>"
  let ?fs = "\<lambda>p :: string. (Inr ?f :: Result + FHandle)"
  let ?m = "\<lambda>a :: u32. 0 :: u8"
  have wf: "db_file ?f ?es" by (rule db_file_entries) simp_all
  have wf0: "db_file (?f\<lparr>h_pos := 0\<rparr>) ?es" using wf by (simp only: db_file_pos)
  have bes: "map be_key ?es = [2, 3, 0x0100000000000000]"
    by (simp add: be_key_db_entry be64_def)
  have keys: "entry_key (?es ! 0) = 0x0200000000000000" "entry_key (?es ! 1) = 0x0300000000000000"
      "entry_key (?es ! 2) = 1"
    by (simp_all add: entry_key_db_entry load64_def)
  have r0: "sint (fSize ?f div sizeof_GameDbEntry - 1) = 2"
    using initial_right [OF wf] by simp
  let ?m1 = "store_bytes ?m 0x1000 (?es ! 1)"
  let ?f1 = "?f\<lparr>h_pos := 228 * 1 + 228\<rparr>"
  have wf1: "db_file ?f1 ?es" using wf by (simp only: db_file_pos)
  have s1: "searchLoop (?f\<lparr>h_pos := 0\<rparr>) 1 0x1000 ?m (- 1) 0 2 = searchLoop ?f1 1 0x1000 ?m1 (- 1) 0 0"
    by (subst searchLoop_step [OF wf0]) (simp_all add: probe_index_def entry_key_db_entry load64_def Let_def)
  have s2: "searchLoop ?f1 1 0x1000 ?m1 (- 1) 0 0
      = Some (RES_NOT_FOUND, store_bytes ?m1 0x1000 (?es ! 0), - 1, ?f1\<lparr>h_pos := 228 * 0 + 228\<rparr>)"
    by (subst searchLoop_step [OF wf1]) (simp_all add: probe_index_def entry_key_db_entry load64_def Let_def)
  have "map_option fst (searchGameDb ?fs 1 0x1000 ?m (- 1)) = Some RES_NOT_FOUND"
    using r0 s1 s2 by (simp add: searchGameDb_def fOpen_def)
  moreover have "sorted (map be_key ?es)" unfolding bes by simp
  ultimately show ?thesis using wf keys(3) by blast
qed

section \<open>Claims about save type detection\<close>

lemma read32_bytes:
  "ucast (read32 m p) = m p" "ucast (drop_bit 8 (read32 m p)) = m (p + 1)"
  "ucast (drop_bit 16 (read32 m p)) = m (p + 2)" "ucast (drop_bit 24 (read32 m p)) = m (p + 3)"
  by (rule bit_word_eqI; auto simp add: read32_def bit_simps dest: bit_imp_le_length)+

lemma read32_eq_iff:
  "read32 m p = load32 [a, b, c, d] \<longleftrightarrow> m p = a \<and> m (p + 1) = b \<and> m (p + 2) = c \<and> m (p + 3) = d"
proof
  assume e: "read32 m p = load32 [a, b, c, d]"
  have "load32 [a, b, c, d] = read32 (\<lambda>x. if x = (0::u32) then a else if x = 1 then b else if x = 2 then c else d) 0"
    by (simp add: load32_def read32_def)
  then show "m p = a \<and> m (p + 1) = b \<and> m (p + 2) = c \<and> m (p + 3) = d"
    using read32_bytes [of m p, unfolded e]
          read32_bytes [of "\<lambda>x. if x = (0::u32) then a else if x = 1 then b else if x = 2 then c else d" 0]
    by simp
next
  assume "m p = a \<and> m (p + 1) = b \<and> m (p + 2) = c \<and> m (p + 3) = d"
  then show "read32 m p = load32 [a, b, c, d]" by (simp add: load32_def read32_def)
qed

lemma memcmp_eq4:
  "memcmp_eq m p [a, b, c, d] \<longleftrightarrow> m p = a \<and> m (p + 1) = b \<and> m (p + 2) = c \<and> m (p + 3) = d"
  by (simp add: memcmp_eq_def upt_rec)

lemma marker_words:
  "(read32 m p = 0x52504545 \<or> read32 m p = 0x53414C46 \<or> read32 m p = 0x4D415253) \<longleftrightarrow> marker_at m p"
proof -
  have w: "(0x52504545 :: u32) = load32 (cstr ''EEPR'')" "(0x53414C46 :: u32) = load32 (cstr ''FLAS'')"
      "(0x4D415253 :: u32) = load32 (cstr ''SRAM'')"
    by (simp_all add: load32_def cstr_def)
  have c: "cstr ''EEPR'' = [0x45, 0x45, 0x50, 0x52]" "cstr ''FLAS'' = [0x46, 0x4C, 0x41, 0x53]"
      "cstr ''SRAM'' = [0x53, 0x52, 0x41, 0x4D]"
    by (simp_all add: cstr_def)
  show ?thesis unfolding w marker_at_def unfolding c read32_eq_iff memcmp_eq4 ..
qed

lemma promote_code:
  "(if (t = SAVE_TYPE_EEPROM_8k \<or> t = SAVE_TYPE_EEPROM_64k) \<and> romSize > 0x1000000 then t + 1 else t)
     = promote romSize t"
  by (auto simp add: promote_def SAVE_TYPE_EEPROM_8k_def SAVE_TYPE_EEPROM_8k_2_def
      SAVE_TYPE_EEPROM_64k_def SAVE_TYPE_EEPROM_64k_2_def)

lemma lutLoop_find:
  "lutLoop m p romSize lut =
     map_option (\<lambda>(str, t). promote romSize t) (find (\<lambda>(str, t). memcmp_eq m p (cstr str)) lut)"
  by (induction lut) (auto simp add: promote_code simp del: One_nat_def)

lemma overrideLoop_find:
  "overrideLoop gameCode lut =
     (case find (\<lambda>(code, t). gameCode AND 0xFFFFFF = load32 code) lut of
        None \<Rightarrow> 0xFF | Some (code, t) \<Rightarrow> t)"
  by (induction lut) auto

lemma find_SomeD: "find P xs = Some x \<Longrightarrow> P x \<and> x \<in> set xs"
  by (induction xs) (auto split: if_splits)

lemma overrideLut_types:
  "(code, t) \<in> set overrideLut \<Longrightarrow> t \<noteq> 0xFF"
  by (auto simp add: overrideLut_def SAVE_TYPE_SRAM_256k_def SAVE_TYPE_EEPROM_64k_def)

lemma override_entry_low_byte:
  assumes "override_entry gameCode = Some (code, t)"
  shows "gameCode AND 0xFF \<noteq> of_char CHR ''F''"
proof -
  have e: "(code, t) \<in> set overrideLut" "gameCode AND 0xFFFFFF = load32 code"
    using find_SomeD [OF assms [unfolded override_entry_def]] by auto
  have "gameCode AND 0xFF = (gameCode AND 0xFFFFFF) AND 0xFF"
    by (simp add: and.assoc)
  then have "gameCode AND 0xFF = load32 code AND 0xFF" unfolding e(2) .
  then show ?thesis using e(1) by (auto simp add: overrideLut_def load32_def cstr_def)
qed

lemma checkSaveOverride_cases:
  "checkSaveOverride gameCode =
     (if gameCode AND 0xFF = of_char CHR ''F'' then SAVE_TYPE_EEPROM_8k
      else case override_entry gameCode of None \<Rightarrow> 0xFF | Some (code, t) \<Rightarrow> t)"
  by (simp add: checkSaveOverride_def overrideLoop_find override_entry_def)

lemma checkSaveOverride_none:
  "checkSaveOverride gameCode = 0xFF \<longleftrightarrow>
     gameCode AND 0xFF \<noteq> of_char CHR ''F'' \<and> override_entry gameCode = None"
proof (cases "override_entry gameCode")
  case None
  then show ?thesis by (simp add: checkSaveOverride_cases SAVE_TYPE_EEPROM_8k_def)
next
  case (Some e)
  obtain code t where e: "e = (code, t)" by (cases e)
  have "(code, t) \<in> set overrideLut"
    using Some e unfolding override_entry_def by (auto dest: find_SomeD)
  then have "t \<noteq> 0xFF" by (rule overrideLut_types)
  then show ?thesis using Some e by (simp add: checkSaveOverride_cases SAVE_TYPE_EEPROM_8k_def)
qed

lemma scan_step:
  "p < lim \<Longrightarrow>
   scanLoop m lim romSize p =
     (if sdk_hit m p
      then Some (promote romSize (snd (the (literal_at m p))))
      else scanLoop m lim romSize (p + 4))"
  by (subst scanLoop.simps)
     (auto simp add: Let_def marker_words lutLoop_find literal_at_def sdk_hit_def split: option.splits)

lemma scanLoop_unroll:
  assumes "unat lim \<le> unat p + 4 * n" "n = 0 \<or> unat p + 4 * (n - 1) < unat lim"
    and "unat p + 4 * n < 2 ^ 32"
  shows "scanLoop m lim romSize p = Some (scanN n m romSize p)"
  using assms
proof (induction n arbitrary: p)
  case 0
  then have "\<not> p < lim" by (simp add: word_less_nat_alt)
  then show ?case by (subst scanLoop.simps) simp
next
  case (Suc n)
  have lt: "p < lim" using Suc.prems(2) by (simp add: word_less_nat_alt)
  have u: "unat (p + 4) = unat p + 4" using Suc.prems(3) by (simp add: unat_word_ariths)
  have "scanLoop m lim romSize (p + 4) = Some (scanN n m romSize (p + 4))"
  proof (rule Suc.IH)
    show "unat lim \<le> unat (p + 4) + 4 * n" unfolding u using Suc.prems(1) by simp
    show "n = 0 \<or> unat (p + 4) + 4 * (n - 1) < unat lim" unfolding u using Suc.prems(2) by (cases n) simp_all
    show "unat (p + 4) + 4 * n < 2 ^ 32" unfolding u using Suc.prems(3) by simp
  qed
  then show ?case unfolding scan_step [OF lt, of m romSize] by simp
qed

lemma scanN_find:
  "scanN n m romSize p =
     (case find (sdk_hit m) (map (\<lambda>k. p + 4 * of_nat k) [0..<n]) of
        None \<Rightarrow> SAVE_TYPE_NONE
      | Some q \<Rightarrow> promote romSize (snd (the (literal_at m q))))"
proof (induction n arbitrary: p)
  case 0
  show ?case by simp
next
  case (Suc n)
  have "map (\<lambda>k. p + 4 * of_nat k) [0..<Suc n] = p # map (\<lambda>k. (p + 4) + 4 * of_nat k) [0..<n]"
    by (simp add: map_upt_Suc del: upt_Suc)
  then show ?case using Suc.IH [of "p + 4"] by (simp del: upt_Suc)
qed

lemma tryDetectSaveType_scan:
  assumes "checkSaveOverride (read32 m (ROM_LOC + 0xAC)) = 0xFF"
    and "unat ROM_LOC + unat romSize + 3 < 2 ^ 32" "unat ROM_LOC + 0xE4 < 2 ^ 32"
  shows "tryDetectSaveType ROM_LOC m romSize =
     Some (case first_sdk_match ROM_LOC m romSize of
             None \<Rightarrow> SAVE_TYPE_NONE | Some (str, t) \<Rightarrow> promote romSize t)"
proof -
  let ?n = "(unat romSize - 0xE4 + 3) div 4"
  have up: "unat (ROM_LOC + 0xE4) = unat ROM_LOC + 0xE4"
    using assms(3) by (simp add: unat_word_ariths)
  have ul: "unat (ROM_LOC + romSize) = unat ROM_LOC + unat romSize"
    using assms(2) by (simp add: unat_word_ariths)
  have "scanLoop m (ROM_LOC + romSize) romSize (ROM_LOC + 0xE4) = Some (scanN ?n m romSize (ROM_LOC + 0xE4))"
  proof (rule scanLoop_unroll)
    show "unat (ROM_LOC + romSize) \<le> unat (ROM_LOC + 0xE4) + 4 * ?n" unfolding up ul by simp
    have d: "4 * ?n \<le> unat romSize - 0xE4 + 3" by simp
    show "?n = 0 \<or> unat (ROM_LOC + 0xE4) + 4 * (?n - 1) < unat (ROM_LOC + romSize)"
      unfolding up ul using d by linarith
    have d: "4 * ?n \<le> unat romSize - 0xE4 + 3" by simp
    have a2: "unat ROM_LOC + unat romSize + 3 < 4294967296" using assms(2) by simp
    have a3: "unat ROM_LOC + 228 < 4294967296" using assms(3) by simp
    have "unat ROM_LOC + 228 + 4 * ?n < 4294967296"
    proof (cases "unat romSize < 228")
      case True
      then have "?n = 0" by simp
      then show ?thesis using a3 by simp
    next
      case False
      then show ?thesis using a2 d by linarith
    qed
    then show "unat (ROM_LOC + 0xE4) + 4 * ?n < 2 ^ 32" unfolding up by simp
  qed
  moreover have "scanN ?n m romSize (ROM_LOC + 0xE4)
      = (case first_sdk_match ROM_LOC m romSize of
             None \<Rightarrow> SAVE_TYPE_NONE | Some (str, t) \<Rightarrow> promote romSize t)"
    unfolding scanN_find first_sdk_match_def scan_positions_def
    by (auto split: option.splits dest: find_SomeD simp add: sdk_hit_def)
  ultimately show ?thesis using assms(1) by (simp add: tryDetectSaveType_def)
qed

lemma tryDetectSaveType_override:
  "checkSaveOverride (read32 m (ROM_LOC + 0xAC)) \<noteq> 0xFF \<Longrightarrow>
   tryDetectSaveType ROM_LOC m romSize = Some (checkSaveOverride (read32 m (ROM_LOC + 0xAC)))"
  by (simp add: tryDetectSaveType_def)

lemma first_sdk_match_at_start:
  assumes "0xE4 < unat romSize" "sdk_hit m (ROM_LOC + 0xE4)"
  shows "first_sdk_match ROM_LOC m romSize = literal_at m (ROM_LOC + 0xE4)"
proof -
  have "0 < (unat romSize - 0xE4 + 3) div 4" using assms(1) by simp
  then have "[0..<(unat romSize - 0xE4 + 3) div 4] = 0 # [Suc 0..<(unat romSize - 0xE4 + 3) div 4]"
    by (rule upt_conv_Cons)
  then have "scan_positions ROM_LOC romSize =
      (ROM_LOC + 0xE4) # map (\<lambda>k. ROM_LOC + 0xE4 + 4 * of_nat k) [Suc 0..<(unat romSize - 0xE4 + 3) div 4]"
    unfolding scan_positions_def by simp
  then show ?thesis using assms(2) by (simp add: first_sdk_match_def)
qed

lemma rom_image_examples:
  "read32 (rom_image ''AXVE'' ''EEPROM_V111'') 0x080000AC = 0x45565841"
  "read32 (rom_image ''AXVE'' ''EEPROM_V121'') 0x080000AC = 0x45565841"
  "read32 (rom_image ''AXVE'' ''FLASH1M_V102'') 0x080000AC = 0x45565841"
  "read32 (rom_image ''FMBE'' ''FLASH1M_V102'') 0x080000AC = 0x45424D46"
  "read32 (rom_image ''AZLE'' ''SRAM_V113'') 0x080000AC = 0x454C5A41"
  "read32 (rom_image ''AA2E'' ''EEPROM_V121'') 0x080000AC = 0x45324141"
  by (simp_all add: rom_image_def read32_def store_bytes_def cstr_def)

lemma override_examples:
  "override_entry 0x45565841 = None"
  "override_entry 0x454C5A41 = Some (cstr ''AZL'' @ [0], SAVE_TYPE_EEPROM_64k)"
  "override_entry 0x45324141 = Some (cstr ''AA2'' @ [0], SAVE_TYPE_EEPROM_64k)"
  by (simp_all add: override_entry_def overrideLut_def load32_def cstr_def)

lemma sdk_examples:
  "literal_at (rom_image code ''EEPROM_V111'') 0x080000E4 = Some (''EEPROM_V111'', SAVE_TYPE_EEPROM_8k)"
  "marker_at (rom_image code ''EEPROM_V111'') 0x080000E4"
  "literal_at (rom_image code ''EEPROM_V121'') 0x080000E4 = Some (''EEPROM_V121'', SAVE_TYPE_EEPROM_64k)"
  "marker_at (rom_image code ''EEPROM_V121'') 0x080000E4"
  "literal_at (rom_image code ''FLASH1M_V102'') 0x080000E4 = Some (''FLASH1M_V102'', SAVE_TYPE_FLASH_1m_MRX_RTC)"
  "marker_at (rom_image code ''FLASH1M_V102'') 0x080000E4"
  by (simp_all add: literal_at_def marker_at_def saveTypeLut_def memcmp_eq_def rom_image_def
      store_bytes_def cstr_def upt_rec)

text \<open>
  C5, amended. (1) A game code whose low byte is \<open>F\<close> gives EEPROM 8k, and otherwise a game
  code that matches an entry of the override table gives that entry's save type, whatever
  else the image holds. (2) Otherwise (the scan staying inside the 32-bit address space) the
  result goes by the first aligned word from offset \<open>0xE4\<close>, in address order, at which a
  marker and a literal of the table stand: it is the save type of the first such literal in
  table order, promoted to its \<open>_2\<close> variant when it is EEPROM 8k or 64k and the ROM is
  larger than 16 MiB. (3) With no such word before the end of the image it is "no save".
\<close>

theorem tryDetectSaveType_resolution:
  "(read32 m (ROM_LOC + 0xAC) AND 0xFF = of_char CHR ''F''
      \<longrightarrow> tryDetectSaveType ROM_LOC m romSize = Some SAVE_TYPE_EEPROM_8k)
   \<and> (\<forall>code t. override_entry (read32 m (ROM_LOC + 0xAC)) = Some (code, t)
      \<longrightarrow> tryDetectSaveType ROM_LOC m romSize = Some t)
   \<and> (read32 m (ROM_LOC + 0xAC) AND 0xFF \<noteq> of_char CHR ''F''
          \<and> override_entry (read32 m (ROM_LOC + 0xAC)) = None
          \<and> unat ROM_LOC + unat romSize + 3 < 2 ^ 32 \<and> unat ROM_LOC + 0xE4 < 2 ^ 32
      \<longrightarrow> tryDetectSaveType ROM_LOC m romSize =
            Some (case first_sdk_match ROM_LOC m romSize of
                    None \<Rightarrow> SAVE_TYPE_NONE | Some (str, t) \<Rightarrow> promote romSize t))"
proof (intro conjI impI allI)
  let ?gc = "read32 m (ROM_LOC + 0xAC)"
  show "tryDetectSaveType ROM_LOC m romSize = Some SAVE_TYPE_EEPROM_8k"
    if "?gc AND 0xFF = of_char CHR ''F''"
  proof -
    have c: "checkSaveOverride ?gc = SAVE_TYPE_EEPROM_8k" using that by (simp add: checkSaveOverride_cases)
    then have "checkSaveOverride ?gc \<noteq> 0xFF" by (simp add: SAVE_TYPE_EEPROM_8k_def)
    then show ?thesis using tryDetectSaveType_override [of m ROM_LOC romSize] c by simp
  qed
  show "tryDetectSaveType ROM_LOC m romSize = Some t"
    if "override_entry ?gc = Some (code, t)" for code t
  proof -
    have nf: "?gc AND 0xFF \<noteq> of_char CHR ''F''" by (rule override_entry_low_byte [OF that])
    have c: "checkSaveOverride ?gc = t" using that nf by (simp add: checkSaveOverride_cases)
    have "checkSaveOverride ?gc \<noteq> 0xFF" using that nf by (simp add: checkSaveOverride_none)
    then show ?thesis using tryDetectSaveType_override [of m ROM_LOC romSize] c by simp
  qed
  show "tryDetectSaveType ROM_LOC m romSize =
          Some (case first_sdk_match ROM_LOC m romSize of
                  None \<Rightarrow> SAVE_TYPE_NONE | Some (str, t) \<Rightarrow> promote romSize t)"
    if "?gc AND 0xFF \<noteq> of_char CHR ''F'' \<and> override_entry ?gc = None
          \<and> unat ROM_LOC + unat romSize + 3 < 2 ^ 32 \<and> unat ROM_LOC + 0xE4 < 2 ^ 32"
  proof -
    have "checkSaveOverride ?gc = 0xFF" using that by (simp add: checkSaveOverride_none)
    then show ?thesis by (rule tryDetectSaveType_scan) (use that in simp_all)
  qed
qed

theorem tryDetectSaveType_resolution_witness:
  "tryDetectSaveType 0x08000000 (rom_image ''FMBE'' ''FLASH1M_V102'') 0x100000 = Some SAVE_TYPE_EEPROM_8k
   \<and> tryDetectSaveType 0x08000000 (rom_image ''AZLE'' ''SRAM_V113'') 0x100000 = Some SAVE_TYPE_EEPROM_64k
   \<and> tryDetectSaveType 0x08000000 (rom_image ''AXVE'' ''FLASH1M_V102'') 0x100000
        = Some SAVE_TYPE_FLASH_1m_MRX_RTC"
proof -
  note thm1 = tryDetectSaveType_resolution
      [of "rom_image ''FMBE'' ''FLASH1M_V102''" "0x08000000" "0x100000", THEN conjunct1]
  note thm2 = tryDetectSaveType_resolution
      [of "rom_image ''AZLE'' ''SRAM_V113''" "0x08000000" "0x100000", THEN conjunct2, THEN conjunct1]
  note thm3 = tryDetectSaveType_resolution
      [of "rom_image ''AXVE'' ''FLASH1M_V102''" "0x08000000" "0x100000", THEN conjunct2, THEN conjunct2]
  have a: "tryDetectSaveType 0x08000000 (rom_image ''FMBE'' ''FLASH1M_V102'') 0x100000 = Some SAVE_TYPE_EEPROM_8k"
    by (rule thm1 [rule_format]) (simp add: rom_image_examples)
  have b: "tryDetectSaveType 0x08000000 (rom_image ''AZLE'' ''SRAM_V113'') 0x100000 = Some SAVE_TYPE_EEPROM_64k"
    by (rule thm2 [rule_format]) (simp add: rom_image_examples override_examples)
  have hit: "sdk_hit (rom_image ''AXVE'' ''FLASH1M_V102'') (0x08000000 + 0xE4)"
    by (simp add: sdk_hit_def sdk_examples)
  have fm: "first_sdk_match 0x08000000 (rom_image ''AXVE'' ''FLASH1M_V102'') 0x100000
      = Some (''FLASH1M_V102'', SAVE_TYPE_FLASH_1m_MRX_RTC)"
    using first_sdk_match_at_start [OF _ hit, of "0x100000"] by (simp add: sdk_examples)
  have "tryDetectSaveType 0x08000000 (rom_image ''AXVE'' ''FLASH1M_V102'') 0x100000 =
      Some (case first_sdk_match 0x08000000 (rom_image ''AXVE'' ''FLASH1M_V102'') 0x100000 of
              None \<Rightarrow> SAVE_TYPE_NONE | Some (str, t) \<Rightarrow> promote 0x100000 t)"
    by (rule thm3 [rule_format]) (simp add: rom_image_examples override_examples)
  then have c: "tryDetectSaveType 0x08000000 (rom_image ''AXVE'' ''FLASH1M_V102'') 0x100000
        = Some SAVE_TYPE_FLASH_1m_MRX_RTC"
    unfolding fm by (simp add: promote_def)
  show ?thesis using a b c by simp
qed

text \<open>
  C5 as stated fails in (2): in a 32 MiB image without an override, whose first literal is
  \<open>EEPROM_V111\<close> (EEPROM 8k in the table), the detector returns the \<open>_2\<close> variant, which is
  not the save type of that literal.
\<close>

theorem tryDetectSaveType_literal_type_counterexample:
  "checkSaveOverride (read32 (rom_image ''AXVE'' ''EEPROM_V111'') (0x08000000 + 0xAC)) = 0xFF
   \<and> first_sdk_match 0x08000000 (rom_image ''AXVE'' ''EEPROM_V111'') 0x2000000
        = Some (''EEPROM_V111'', SAVE_TYPE_EEPROM_8k)
   \<and> tryDetectSaveType 0x08000000 (rom_image ''AXVE'' ''EEPROM_V111'') 0x2000000
        = Some SAVE_TYPE_EEPROM_8k_2
   \<and> SAVE_TYPE_EEPROM_8k_2 \<noteq> SAVE_TYPE_EEPROM_8k"
proof -
  let ?m = "rom_image ''AXVE'' ''EEPROM_V111''"
  have ov: "checkSaveOverride (read32 ?m (0x08000000 + 0xAC)) = 0xFF"
    by (simp add: checkSaveOverride_none rom_image_examples override_examples)
  have hit: "sdk_hit ?m (0x08000000 + 0xE4)" by (simp add: sdk_hit_def sdk_examples)
  have fm: "first_sdk_match 0x08000000 ?m 0x2000000 = Some (''EEPROM_V111'', SAVE_TYPE_EEPROM_8k)"
    using first_sdk_match_at_start [OF _ hit, of "0x2000000"] by (simp add: sdk_examples)
  have "tryDetectSaveType 0x08000000 ?m 0x2000000 =
      Some (case first_sdk_match 0x08000000 ?m 0x2000000 of
              None \<Rightarrow> SAVE_TYPE_NONE | Some (str, t) \<Rightarrow> promote 0x2000000 t)"
    by (rule tryDetectSaveType_scan [OF ov]) simp_all
  then have "tryDetectSaveType 0x08000000 ?m 0x2000000 = Some SAVE_TYPE_EEPROM_8k_2"
    unfolding fm by (simp add: promote_def)
  moreover have "SAVE_TYPE_EEPROM_8k_2 \<noteq> SAVE_TYPE_EEPROM_8k"
    by (simp add: SAVE_TYPE_EEPROM_8k_2_def SAVE_TYPE_EEPROM_8k_def)
  ultimately show ?thesis using ov fm by simp
qed

lemma dbPosInRange_always: "dbPosInRange p"
  unfolding dbPosInRange_def by linarith

lemma commitSaveType_value:
  "cursor < 8 \<Longrightarrow>
   fst (commitSaveType cursor romSize attr dbPos dbOpen) =
     (if attr \<noteq> ucast (promote romSize (cursorSaveTypeLut ! cursor)) \<and> dbOpen \<noteq> RES_OK
      then SAVE_TYPE_NONE else promote romSize (cursorSaveTypeLut ! cursor))"
  by (simp add: commitSaveType_def Let_def promote_code dbPosInRange_always)

text \<open>What the selection step yields is what \<open>saveDbDebug\<close> returns once a type is confirmed.\<close>

lemma saveDbDebug_accepted:
  assumes "tryDetectSaveType ROM_LOC m romSize = Some autoSaveType"
    and "searchGameDb fs x db m (- 1) = Some (RES_OK, m', dbPos)"
    and "cursorLoop savePath
           (saveTypeCursorLut ! unat (ucast (read32 m' (db + 224) AND 0xF) :: u16))
           (saveTypeCursorLut ! unat (ucast (read32 m' (db + 224) AND 0xF) :: u16))
           [ShowInfo saveExists (ucast (read32 m' (db + 224) AND 0xF)) autoSaveType,
            ShowCursor 0 (saveTypeCursorLut ! unat (ucast (read32 m' (db + 224) AND 0xF) :: u16))]
           samples = Accepted cursor effs"
  shows "saveDbDebug ROM_LOC fs saveExists x dbOpen samples db m savePath romSize =
     Some (fst (commitSaveType cursor romSize (read32 m' (db + 224)) dbPos dbOpen),
           effs @ snd (commitSaveType cursor romSize (read32 m' (db + 224)) dbPos dbOpen))"
  using assms by (simp add: saveDbDebug_def Let_def split: prod.splits)

text \<open>
  C1, amended. For every ROM size above 16 MiB: where no override applies, an EEPROM 8k or
  64k type found by the scan comes back as its \<open>_2\<close> variant (any other type as it is); in
  the diagnostic flow the EEPROM 8k or 64k type under the cursor is turned into its \<open>_2\<close>
  variant, which is the result unless the database cannot be opened for the correction;
  a hit of the override table comes back as the table has it.
\<close>

theorem eeprom_promotion_paths:
  assumes "0x1000000 < romSize"
  shows "(\<forall>str t. checkSaveOverride (read32 m (ROM_LOC + 0xAC)) = 0xFF
            \<and> unat ROM_LOC + unat romSize + 3 < 2 ^ 32 \<and> unat ROM_LOC + 0xE4 < 2 ^ 32
            \<and> first_sdk_match ROM_LOC m romSize = Some (str, t)
          \<longrightarrow> tryDetectSaveType ROM_LOC m romSize =
                Some (if t = SAVE_TYPE_EEPROM_8k then SAVE_TYPE_EEPROM_8k_2
                      else if t = SAVE_TYPE_EEPROM_64k then SAVE_TYPE_EEPROM_64k_2 else t))
     \<and> fst (commitSaveType 0 romSize attr dbPos dbOpen)
         = (if attr \<noteq> ucast SAVE_TYPE_EEPROM_8k_2 \<and> dbOpen \<noteq> RES_OK
            then SAVE_TYPE_NONE else SAVE_TYPE_EEPROM_8k_2)
     \<and> fst (commitSaveType 1 romSize attr dbPos dbOpen)
         = (if attr \<noteq> ucast SAVE_TYPE_EEPROM_64k_2 \<and> dbOpen \<noteq> RES_OK
            then SAVE_TYPE_NONE else SAVE_TYPE_EEPROM_64k_2)
     \<and> (checkSaveOverride (read32 m (ROM_LOC + 0xAC)) \<noteq> 0xFF
          \<longrightarrow> tryDetectSaveType ROM_LOC m romSize
                = Some (checkSaveOverride (read32 m (ROM_LOC + 0xAC))))"
proof (intro conjI impI allI)
  show "tryDetectSaveType ROM_LOC m romSize =
          Some (if t = SAVE_TYPE_EEPROM_8k then SAVE_TYPE_EEPROM_8k_2
                else if t = SAVE_TYPE_EEPROM_64k then SAVE_TYPE_EEPROM_64k_2 else t)"
    if h: "checkSaveOverride (read32 m (ROM_LOC + 0xAC)) = 0xFF
            \<and> unat ROM_LOC + unat romSize + 3 < 2 ^ 32 \<and> unat ROM_LOC + 0xE4 < 2 ^ 32
            \<and> first_sdk_match ROM_LOC m romSize = Some (str, t)" for str t
  proof -
    have "tryDetectSaveType ROM_LOC m romSize =
      Some (case first_sdk_match ROM_LOC m romSize of
              None \<Rightarrow> SAVE_TYPE_NONE | Some (str, t) \<Rightarrow> promote romSize t)"
      by (rule tryDetectSaveType_scan) (use h in simp_all)
    then show ?thesis using h assms by (simp add: promote_def)
  qed
  have p0: "promote romSize (cursorSaveTypeLut ! 0) = SAVE_TYPE_EEPROM_8k_2"
    using assms by (simp add: promote_def cursorSaveTypeLut_def SAVE_TYPE_EEPROM_8k_def)
  have p1: "promote romSize (cursorSaveTypeLut ! 1) = SAVE_TYPE_EEPROM_64k_2"
    using assms by (simp add: promote_def cursorSaveTypeLut_def SAVE_TYPE_EEPROM_8k_def
        SAVE_TYPE_EEPROM_64k_def)
  show "fst (commitSaveType 0 romSize attr dbPos dbOpen)
         = (if attr \<noteq> ucast SAVE_TYPE_EEPROM_8k_2 \<and> dbOpen \<noteq> RES_OK
            then SAVE_TYPE_NONE else SAVE_TYPE_EEPROM_8k_2)"
    using commitSaveType_value [of 0 romSize attr dbPos dbOpen] unfolding p0 by simp
  show "fst (commitSaveType 1 romSize attr dbPos dbOpen)
         = (if attr \<noteq> ucast SAVE_TYPE_EEPROM_64k_2 \<and> dbOpen \<noteq> RES_OK
            then SAVE_TYPE_NONE else SAVE_TYPE_EEPROM_64k_2)"
    using commitSaveType_value [of 1 romSize attr dbPos dbOpen] unfolding p1 by simp
  show "tryDetectSaveType ROM_LOC m romSize = Some (checkSaveOverride (read32 m (ROM_LOC + 0xAC)))"
    if "checkSaveOverride (read32 m (ROM_LOC + 0xAC)) \<noteq> 0xFF"
    using that by (rule tryDetectSaveType_override)
qed

theorem eeprom_promotion_paths_witness:
  "(0x1000000 :: u32) < 0x2000000
   \<and> tryDetectSaveType 0x08000000 (rom_image ''AXVE'' ''EEPROM_V121'') 0x2000000
        = Some SAVE_TYPE_EEPROM_64k_2
   \<and> fst (commitSaveType 0 0x2000000 0 7 RES_OK) = SAVE_TYPE_EEPROM_8k_2
   \<and> fst (commitSaveType 1 0x2000000 0 7 RES_OK) = SAVE_TYPE_EEPROM_64k_2
   \<and> tryDetectSaveType 0x08000000 (rom_image ''AA2E'' ''EEPROM_V121'') 0x2000000
        = Some SAVE_TYPE_EEPROM_64k"
proof -
  let ?m = "rom_image ''AXVE'' ''EEPROM_V121''"
  let ?m2 = "rom_image ''AA2E'' ''EEPROM_V121''"
  have big: "(0x1000000 :: u32) < 0x2000000" by simp
  note t = eeprom_promotion_paths [OF big]
  have ov: "checkSaveOverride (read32 ?m (0x08000000 + 0xAC)) = 0xFF"
    by (simp add: checkSaveOverride_none rom_image_examples override_examples)
  have hit: "sdk_hit ?m (0x08000000 + 0xE4)" by (simp add: sdk_hit_def sdk_examples)
  have fm: "first_sdk_match 0x08000000 ?m 0x2000000 = Some (''EEPROM_V121'', SAVE_TYPE_EEPROM_64k)"
    using first_sdk_match_at_start [OF _ hit, of "0x2000000"] by (simp add: sdk_examples)
  have a: "tryDetectSaveType 0x08000000 ?m 0x2000000 = Some SAVE_TYPE_EEPROM_64k_2"
    using t [of ?m "0x08000000", THEN conjunct1, rule_format, of "''EEPROM_V121''" SAVE_TYPE_EEPROM_64k] ov fm
    by (simp add: SAVE_TYPE_EEPROM_64k_def SAVE_TYPE_EEPROM_8k_def)
  have b: "fst (commitSaveType 0 0x2000000 0 7 RES_OK) = SAVE_TYPE_EEPROM_8k_2"
    using t [of ?m "0x08000000" 0 7 RES_OK, THEN conjunct2, THEN conjunct1] by simp
  have c: "fst (commitSaveType 1 0x2000000 0 7 RES_OK) = SAVE_TYPE_EEPROM_64k_2"
    using t [of ?m "0x08000000" 0 7 RES_OK, THEN conjunct2, THEN conjunct2, THEN conjunct1] by simp
  have ov2: "checkSaveOverride (read32 ?m2 (0x08000000 + 0xAC)) = SAVE_TYPE_EEPROM_64k"
    by (simp add: checkSaveOverride_cases rom_image_examples override_examples)
  then have "checkSaveOverride (read32 ?m2 (0x08000000 + 0xAC)) \<noteq> 0xFF"
    by (simp add: SAVE_TYPE_EEPROM_64k_def)
  then have d: "tryDetectSaveType 0x08000000 ?m2 0x2000000 = Some SAVE_TYPE_EEPROM_64k"
    using t [of ?m2 "0x08000000" 0 7 RES_OK, THEN conjunct2, THEN conjunct2, THEN conjunct2] ov2
    by simp
  show ?thesis using big a b c d by simp
qed

text \<open>
  C1 as stated fails on the override path: a 32 MiB image with the game code \<open>AA2E\<close> gets
  EEPROM 64k, not its \<open>_2\<close> variant.
\<close>

theorem override_not_promoted_counterexample:
  "(0x1000000 :: u32) < 0x2000000
   \<and> tryDetectSaveType 0x08000000 (rom_image ''AA2E'' ''EEPROM_V121'') 0x2000000
        = Some SAVE_TYPE_EEPROM_64k
   \<and> SAVE_TYPE_EEPROM_64k \<noteq> SAVE_TYPE_EEPROM_64k_2"
proof -
  let ?m2 = "rom_image ''AA2E'' ''EEPROM_V121''"
  have ov2: "checkSaveOverride (read32 ?m2 (0x08000000 + 0xAC)) = SAVE_TYPE_EEPROM_64k"
    by (simp add: checkSaveOverride_cases rom_image_examples override_examples)
  then have "checkSaveOverride (read32 ?m2 (0x08000000 + 0xAC)) \<noteq> 0xFF"
    by (simp add: SAVE_TYPE_EEPROM_64k_def)
  then have "tryDetectSaveType 0x08000000 ?m2 0x2000000 = Some SAVE_TYPE_EEPROM_64k"
    using tryDetectSaveType_override [of ?m2 "0x08000000" "0x2000000"] ov2 by simp
  then show ?thesis by (simp add: SAVE_TYPE_EEPROM_64k_def SAVE_TYPE_EEPROM_64k_2_def)
qed

section \<open>Claims about the diagnostic flow\<close>

text \<open>
  C9. The bounds test of the database correction holds for every position, so the branch
  that reports a position out of range is never taken: whatever the cursor, the ROM size,
  the attribute word, the position and the status of opening the database for writing,
  the correction does not print that line.
\<close>

theorem dbPos_check_always_true:
  "dbPosInRange dbPos
   \<and> Puts ''Db position out of range!'' \<notin> set (snd (commitSaveType cursor romSize attr dbPos dbOpen))"
  by (simp add: commitSaveType_def Let_def dbPosInRange_always)

theorem dbPos_check_always_true_witness:
  "dbPosInRange 5000
   \<and> Puts ''Db position out of range!'' \<notin> set (snd (commitSaveType 0 0x2000000 0 5000 RES_OK))
   \<and> commitSaveType 0 0x2000000 0 5000 RES_OK
      = (SAVE_TYPE_EEPROM_8k_2, [DbWrite (228 * 5000 + 224) (push_bit 27 25 OR 1)])"
proof -
  have "intLog2 0x2000000 = 25" by (simp add: intLog2_def)
  then have "commitSaveType 0 0x2000000 0 5000 RES_OK
      = (SAVE_TYPE_EEPROM_8k_2, [DbWrite (228 * 5000 + 224) (push_bit 27 25 OR 1)])"
    by (simp add: commitSaveType_def cursorSaveTypeLut_def SAVE_TYPE_EEPROM_8k_def
        SAVE_TYPE_EEPROM_64k_def SAVE_TYPE_EEPROM_8k_2_def sizeof_GameDbEntry_def
        dbPosInRange_def Let_def)
  then show ?thesis
    using dbPos_check_always_true [of 5000 0 "0x2000000" 0 RES_OK] by simp
qed

section \<open>Claims about the frame task\<close>

lemma gbaGfxHandler_run:
  "res \<noteq> KRES_OK \<Longrightarrow>
   gbaGfxHandler inited (ok_waits ys @ (res, b) # rest)
     = (cycles (\<not> inited) ys @ [waitForEvent, taskExit], inited \<or> ys \<noteq> [], True)"
proof (induction ys arbitrary: inited)
  case Nil
  then show ?case by (simp add: ok_waits_def)
next
  case (Cons y ys)
  have "gbaGfxHandler True (ok_waits ys @ (res, b) # rest)
      = (cycles False ys @ [waitForEvent, taskExit], True, True)"
    using Cons.IH [OF Cons.prems, of True] by simp
  then show ?case by (simp add: ok_waits_def cycle_def)
qed

lemma gbaGfxHandler_blocked:
  "gbaGfxHandler inited (ok_waits ys) = (cycles (\<not> inited) ys @ [waitForEvent], inited \<or> ys \<noteq> [], False)"
proof (induction ys arbitrary: inited)
  case Nil
  then show ?case by (simp add: ok_waits_def)
next
  case (Cons y ys)
  have "gbaGfxHandler True (ok_waits ys) = (cycles False ys @ [waitForEvent], True, False)"
    using Cons.IH [of True] by simp
  then show ?case by (simp add: ok_waits_def cycle_def)
qed

lemma count_cycle:
  "count_list (cycle first y) (GX_processCommandList gbaGpuInitList) = (if first then 1 else 0)"
  "count_list (cycle first y) (GX_processCommandList gbaGpuList2) = (if first then 0 else 1)"
  "count_list (cycle first y) (GX_displayTransfer FrameToTopScreen) = 1"
  "count_list (cycle first y) GFX_swapFramebufs = 1"
  "count_list (cycle first y) clearEvent = 1"
  by (simp_all add: cycle_def dumpFrameTex_def)

lemma count_cycles_later:
  "count_list (cycles False ys) (GX_processCommandList gbaGpuInitList) = 0"
  "count_list (cycles False ys) (GX_processCommandList gbaGpuList2) = length ys"
  "count_list (cycles first ys) (GX_displayTransfer FrameToTopScreen) = length ys"
  "count_list (cycles first ys) GFX_swapFramebufs = length ys"
  by (induction ys arbitrary: first) (simp_all add: count_cycle)

lemma count_cycles_first:
  "ys \<noteq> [] \<Longrightarrow> count_list (cycles True ys) (GX_processCommandList gbaGpuInitList) = 1"
  "ys \<noteq> [] \<Longrightarrow> count_list (cycles True ys) (GX_processCommandList gbaGpuList2) = length ys - 1"
  by (cases ys; simp add: count_cycle count_cycles_later)+

lemma exited_iff:
  "snd (snd (gbaGfxHandler inited evs)) \<longleftrightarrow> (\<exists>e\<in>set evs. fst e \<noteq> KRES_OK)"
proof (induction evs arbitrary: inited)
  case Nil
  show ?case by simp
next
  case (Cons e evs)
  obtain res keyY where e: "e = (res, keyY)" by (cases e)
  obtain calls i x where r: "gbaGfxHandler True evs = (calls, i, x)" by (cases "gbaGfxHandler True evs")
  have "x \<longleftrightarrow> (\<exists>e\<in>set evs. fst e \<noteq> KRES_OK)" using Cons.IH [of True] r by simp
  then show ?case using e r by (cases "res = KRES_OK") simp_all
qed

text \<open>
  C8. A run of the task that starts with \<open>inited\<close> false, gets \<open>N = length ys\<close> successful
  waits (\<open>N > 0\<close>) and then a wait that fails makes exactly the calls of \<open>N\<close> rounds, each
  in the order wait, clear, command list, wait for the list, frame transfer, wait for the
  transfer, swap, and then the failed wait and \<open>taskExit\<close>; as long as no wait has failed it
  has made the calls of the rounds so far and is waiting. The rounds submit the
  initialisation list once (in the first round) and the other list \<open>N - 1\<close> times, and do
  one frame transfer and one swap each. The task exits exactly when a wait fails. (A round
  in which the Y key is down goes on, after its swap, to dump the frame texture.)
\<close>

theorem gbaGfxHandler_cycles:
  assumes "res \<noteq> KRES_OK" and "ys \<noteq> []"
  shows "gbaGfxHandler False (ok_waits ys @ (res, b) # rest)
           = (cycles True ys @ [waitForEvent, taskExit], True, True)
    \<and> gbaGfxHandler False (ok_waits ys) = (cycles True ys @ [waitForEvent], True, False)
    \<and> count_list (cycles True ys) (GX_processCommandList gbaGpuInitList) = 1
    \<and> count_list (cycles True ys) (GX_processCommandList gbaGpuList2) = length ys - 1
    \<and> count_list (cycles True ys) (GX_displayTransfer FrameToTopScreen) = length ys
    \<and> count_list (cycles True ys) GFX_swapFramebufs = length ys
    \<and> (snd (snd (gbaGfxHandler inited evs)) \<longleftrightarrow> (\<exists>e\<in>set evs. fst e \<noteq> KRES_OK))"
  using assms
  by (simp add: gbaGfxHandler_run gbaGfxHandler_blocked count_cycles_first count_cycles_later
      exited_iff)

theorem gbaGfxHandler_cycles_witness:
  "gbaGfxHandler False [(KRES_OK, False), (KRES_OK, True), (KRES_ERR 1, False)]
     = ([waitForEvent, clearEvent, GX_processCommandList gbaGpuInitList, GFX_waitForP3D,
         GX_displayTransfer FrameToTopScreen, GFX_waitForPPF, GFX_swapFramebufs,
         waitForEvent, clearEvent, GX_processCommandList gbaGpuList2, GFX_waitForP3D,
         GX_displayTransfer FrameToTopScreen, GFX_waitForPPF, GFX_swapFramebufs,
         GX_displayTransfer TextureToDumpBuffer, GFX_waitForPPF, memcpy_bmpHeader,
         fsQuickWrite ''texture_dump.bmp'',
         waitForEvent, taskExit], True, True)
   \<and> count_list (cycles True [False, True]) (GX_processCommandList gbaGpuInitList) = 1
   \<and> count_list (cycles True [False, True]) (GX_processCommandList gbaGpuList2) = 1
   \<and> count_list (cycles True [False, True]) GFX_swapFramebufs = 2"
proof -
  have h1: "KRES_ERR 1 \<noteq> KRES_OK" by simp
  have h2: "[False, True] \<noteq> []" by simp
  show ?thesis
    using gbaGfxHandler_cycles [OF h1 h2, of False "[]" False "[]"]
    by (simp add: ok_waits_def cycle_def dumpFrameTex_def)
qed

end
